theory Spec2Isabelle
  imports Complex_Main "HOL-Library.Sublist"
begin

section \<open>Python strings\<close>

text \<open>
  A Python \<^verbatim>\<open>str\<close> is a sequence of Unicode code points, and the operations the
  extractors use (\<^verbatim>\<open>str.strip\<close>, \<^verbatim>\<open>str.isdigit\<close>, \<^verbatim>\<open>int\<close>, the classes of
  \<^verbatim>\<open>re\<close>) work code point by code point. A string is therefore a list of code points.
  The character classes are those of CPython 3.11 (Unicode 14.0).
\<close>

type_synonym ustr = "nat list"

definition U :: "string \<Rightarrow> ustr" where
  "U s = map of_char s"

definition in_ranges :: "(nat \<times> nat) list \<Rightarrow> nat \<Rightarrow> bool" where
  "in_ranges rs c = list_ex (\<lambda>(lo, hi). lo \<le> c \<and> c \<le> hi) rs"

text \<open>\<^verbatim>\<open>str.isspace\<close>: the characters removed by \<^verbatim>\<open>str.strip()\<close> and matched by \<^verbatim>\<open>\s\<close>.\<close>

definition space_ranges :: "(nat \<times> nat) list" where
  "space_ranges =
     [(0x9, 0xD), (0x1C, 0x20), (0x85, 0x85), (0xA0, 0xA0), (0x1680, 0x1680),
      (0x2000, 0x200A), (0x2028, 0x2029), (0x202F, 0x202F), (0x205F, 0x205F),
      (0x3000, 0x3000)]"

definition isspace :: "nat \<Rightarrow> bool" where
  "isspace c = in_ranges space_ranges c"

text \<open>
  \<^verbatim>\<open>str.isdecimal\<close> (also \<^verbatim>\<open>\d\<close>): the decimal digits of all scripts. They come in
  blocks of ten consecutive code points, zero first, apart from the mathematical digits
  U+1D7CE..U+1D7FF, five such blocks in a row.
\<close>

definition decimal_blocks :: "nat list" where
  "decimal_blocks =
     [0x30, 0x660, 0x6F0, 0x7C0, 0x966, 0x9E6, 0xA66, 0xAE6, 0xB66, 0xBE6, 0xC66, 0xCE6,
      0xD66, 0xDE6, 0xE50, 0xED0, 0xF20, 0x1040, 0x1090, 0x17E0, 0x1810, 0x1946, 0x19D0,
      0x1A80, 0x1A90, 0x1B50, 0x1BB0, 0x1C40, 0x1C50, 0xA620, 0xA8D0, 0xA900, 0xA9D0,
      0xA9F0, 0xAA50, 0xABF0, 0xFF10, 0x104A0, 0x10D30, 0x11066, 0x110F0, 0x11136,
      0x111D0, 0x112F0, 0x11450, 0x114D0, 0x11650, 0x116C0, 0x11730, 0x118E0, 0x11950,
      0x11C50, 0x11D50, 0x11DA0, 0x16A60, 0x16AC0, 0x16B50, 0x1D7CE, 0x1D7D8, 0x1D7E2,
      0x1D7EC, 0x1D7F6, 0x1E140, 0x1E2F0, 0x1E950, 0x1FBF0]"

definition decimal_value :: "nat \<Rightarrow> nat option" where
  "decimal_value c =
     (case find (\<lambda>b. b \<le> c \<and> c < b + 10) decimal_blocks of
        None \<Rightarrow> None
      | Some b \<Rightarrow> Some (c - b))"

definition isdecimal :: "nat \<Rightarrow> bool" where
  "isdecimal c = (decimal_value c \<noteq> None)"

text \<open>
  \<^verbatim>\<open>str.isdigit\<close>: the decimal digits and the other characters of numeric type Digit
  (superscripts, subscripts, circled digits, ...), which \<^verbatim>\<open>int\<close> does not accept.
\<close>

definition other_digit_ranges :: "(nat \<times> nat) list" where
  "other_digit_ranges =
     [(0xB2, 0xB3), (0xB9, 0xB9), (0x1369, 0x1371), (0x19DA, 0x19DA), (0x2070, 0x2070),
      (0x2074, 0x2079), (0x2080, 0x2089), (0x2460, 0x2468), (0x2474, 0x247C),
      (0x2488, 0x2490), (0x24EA, 0x24EA), (0x24F5, 0x24FD), (0x24FF, 0x24FF),
      (0x2776, 0x277E), (0x2780, 0x2788), (0x278A, 0x2792), (0x10A40, 0x10A43),
      (0x10E60, 0x10E68), (0x11052, 0x1105A), (0x1F100, 0x1F10A)]"

definition isdigit :: "nat \<Rightarrow> bool" where
  "isdigit c = (isdecimal c \<or> in_ranges other_digit_ranges c)"

definition lstrip :: "ustr \<Rightarrow> ustr" where
  "lstrip s = dropWhile isspace s"

definition rstrip :: "ustr \<Rightarrow> ustr" where
  "rstrip s = rev (dropWhile isspace (rev s))"

definition strip :: "ustr \<Rightarrow> ustr" where
  "strip s = rstrip (lstrip s)"

text \<open>
  \<^verbatim>\<open>int(s)\<close> for a string of digit characters, the only strings the extractors pass to
  it: the decimal value when every character is a decimal digit, \<^verbatim>\<open>ValueError\<close>
  (\<open>None\<close>) otherwise, on the empty string, and on a string longer than the
  interpreter's limit for decimal strings (4300 characters unless reconfigured).
\<close>

definition int_max_str_digits :: nat where
  "int_max_str_digits = 4300"

fun int_digits :: "ustr \<Rightarrow> nat \<Rightarrow> nat option" where
  "int_digits [] acc = Some acc"
| "int_digits (c # cs) acc =
     (case decimal_value c of
        None \<Rightarrow> None
      | Some d \<Rightarrow> int_digits cs (10 * acc + d))"

definition py_int :: "ustr \<Rightarrow> int option" where
  "py_int s =
     (if s = [] \<or> int_max_str_digits < length s then None
      else map_option int (int_digits s 0))"

section \<open>Text heuristics of the post extractor\<close>

text \<open>
  The loop of \<^verbatim>\<open>_parse_likes\<close>: \<open>num\<close> collects digit characters; the first
  other character after a digit ends the loop, other characters before are skipped.
\<close>

fun likes_loop :: "ustr \<Rightarrow> ustr \<Rightarrow> ustr" where
  "likes_loop [] num = num"
| "likes_loop (ch # rest) num =
     (if isdigit ch then likes_loop rest (num @ [ch])
      else if num \<noteq> [] then num
      else likes_loop rest num)"

definition parse_likes :: "ustr \<Rightarrow> int option" where
  "parse_likes text0 =
     (let text = strip text0 in
      if text = [] then None
      else let num = likes_loop text [] in
           if num = [] then None else py_int num)"

text \<open>
  The first contiguous run of digit characters of a text, and the number a string of
  decimal digits denotes.
\<close>

definition first_digit_run :: "ustr \<Rightarrow> ustr" where
  "first_digit_run t = takeWhile isdigit (dropWhile (\<lambda>c. \<not> isdigit c) t)"

definition digit_val :: "nat \<Rightarrow> nat" where
  "digit_val c = (case decimal_value c of None \<Rightarrow> 0 | Some d \<Rightarrow> d)"

definition decimal_number :: "ustr \<Rightarrow> nat" where
  "decimal_number s = foldl (\<lambda>a c. 10 * a + digit_val c) 0 s"

section \<open>Python values and records\<close>

text \<open>
  The values a record holds, and a \<^verbatim>\<open>dict\<close> with string keys as an association list
  in insertion order (the keys of a \<^verbatim>\<open>dict\<close> are distinct). \<open>truthy\<close> is Python's
  truth value of an object, \<open>py_or\<close> the operator \<^verbatim>\<open>or\<close>.
\<close>

datatype pyval = VNone | VBool bool | VInt int | VFloat rat | VStr ustr
  | VList "pyval list" | VDict "(ustr \<times> pyval) list"

type_synonym pydict = "(ustr \<times> pyval) list"

fun truthy :: "pyval \<Rightarrow> bool" where
  "truthy VNone = False"
| "truthy (VBool b) = b"
| "truthy (VInt i) = (i \<noteq> 0)"
| "truthy (VFloat r) = (r \<noteq> 0)"
| "truthy (VStr s) = (s \<noteq> [])"
| "truthy (VList xs) = (xs \<noteq> [])"
| "truthy (VDict d) = (d \<noteq> [])"

definition py_or :: "pyval \<Rightarrow> pyval \<Rightarrow> pyval" where
  "py_or a b = (if truthy a then a else b)"

definition opt_str :: "ustr option \<Rightarrow> pyval" where
  "opt_str s = (case s of None \<Rightarrow> VNone | Some t \<Rightarrow> VStr t)"

definition dict_keys :: "pydict \<Rightarrow> ustr list" where
  "dict_keys d = map fst d"

text \<open>
  \<^verbatim>\<open>d.get(k)\<close> (null for a missing key), \<^verbatim>\<open>d[k] = v\<close> and \<^verbatim>\<open>d.update(p)\<close>. The lookup
  \<^verbatim>\<open>record["category"]\<close> of \<^verbatim>\<open>normalize_record\<close> reads a key that is always there, so
  it is written with \<open>dict_get\<close> too.
\<close>

definition dict_get :: "pydict \<Rightarrow> ustr \<Rightarrow> pyval" where
  "dict_get d k = (case map_of d k of None \<Rightarrow> VNone | Some v \<Rightarrow> v)"

fun dict_set :: "pydict \<Rightarrow> ustr \<Rightarrow> pyval \<Rightarrow> pydict" where
  "dict_set [] k v = [(k, v)]"
| "dict_set ((k', v') # d) k v = (if k' = k then (k, v) # d else (k', v') # dict_set d k v)"

definition dict_update :: "pydict \<Rightarrow> pydict \<Rightarrow> pydict" where
  "dict_update d p = foldl (\<lambda>acc (k, v). dict_set acc k v) d p"

text \<open>\<^verbatim>\<open>main.py\<close>: the field names and \<^verbatim>\<open>normalize_record\<close>.\<close>

definition FIELD_NAMES :: "ustr list" where
  "FIELD_NAMES = map U [''stock_name'', ''ticker'', ''investor_name'', ''investor_stats'',
     ''post_content'', ''comment_text'', ''likes_count'', ''post_date'', ''category'',
     ''source_url'']"

definition normalize_record :: "pydict \<Rightarrow> ustr option \<Rightarrow> ustr \<Rightarrow> pydict" where
  "normalize_record partial category source_url =
     (let record0 = map (\<lambda>field. (field, VNone)) FIELD_NAMES;
          record1 = dict_update record0 partial;
          record2 = dict_set record1 (U ''category'')
            (py_or (py_or (dict_get partial (U ''category'')) (opt_str category))
               (dict_get record1 (U ''category'')));
          record3 = dict_set record2 (U ''source_url'')
            (py_or (dict_get partial (U ''source_url'')) (VStr source_url))
      in record3)"

section \<open>Regular expressions\<close>

text \<open>
  The patterns of the extractors, as \<^verbatim>\<open>re\<close> runs them: a backtracking matcher that tries
  the alternatives in the order of the pattern, greedy repetitions longest first. A regular
  expression is matched against the rest of the text; the character before it is kept for
  \<^verbatim>\<open>\b\<close>. The result is the list of all ways to match, in the order in which
  backtracking reaches them: \<^verbatim>\<open>re\<close> takes the first. Repetition is needed for character
  classes only.
\<close>

text \<open>\<^verbatim>\<open>\w\<close>: alphanumeric characters (\<^verbatim>\<open>str.isalnum\<close>) and the underscore.\<close>

definition word_ranges :: "(nat \<times> nat) list" where
  "word_ranges =
     [(0xAA, 0xAA), (0xB2, 0xB3), (0xB5, 0xB5), (0xB9, 0xBA), (0xBC, 0xBE), (0xC0, 0xD6),
      (0xD8, 0xF6), (0xF8, 0x2C1), (0x2C6, 0x2D1), (0x2E0, 0x2E4), (0x2EC, 0x2EC),
      (0x2EE, 0x2EE), (0x370, 0x374), (0x376, 0x377), (0x37A, 0x37D), (0x37F, 0x37F),
      (0x386, 0x386), (0x388, 0x38A), (0x38C, 0x38C), (0x38E, 0x3A1), (0x3A3, 0x3F5),
      (0x3F7, 0x481), (0x48A, 0x52F), (0x531, 0x556), (0x559, 0x559), (0x560, 0x588),
      (0x5D0, 0x5EA), (0x5EF, 0x5F2), (0x620, 0x64A), (0x660, 0x669), (0x66E, 0x66F),
      (0x671, 0x6D3), (0x6D5, 0x6D5), (0x6E5, 0x6E6), (0x6EE, 0x6FC), (0x6FF, 0x6FF),
      (0x710, 0x710), (0x712, 0x72F), (0x74D, 0x7A5), (0x7B1, 0x7B1), (0x7C0, 0x7EA),
      (0x7F4, 0x7F5), (0x7FA, 0x7FA), (0x800, 0x815), (0x81A, 0x81A), (0x824, 0x824),
      (0x828, 0x828), (0x840, 0x858), (0x860, 0x86A), (0x870, 0x887), (0x889, 0x88E),
      (0x8A0, 0x8C9), (0x904, 0x939), (0x93D, 0x93D), (0x950, 0x950), (0x958, 0x961),
      (0x966, 0x96F), (0x971, 0x980), (0x985, 0x98C), (0x98F, 0x990), (0x993, 0x9A8),
      (0x9AA, 0x9B0), (0x9B2, 0x9B2), (0x9B6, 0x9B9), (0x9BD, 0x9BD), (0x9CE, 0x9CE),
      (0x9DC, 0x9DD), (0x9DF, 0x9E1), (0x9E6, 0x9F1), (0x9F4, 0x9F9), (0x9FC, 0x9FC),
      (0xA05, 0xA0A), (0xA0F, 0xA10), (0xA13, 0xA28), (0xA2A, 0xA30), (0xA32, 0xA33),
      (0xA35, 0xA36), (0xA38, 0xA39), (0xA59, 0xA5C), (0xA5E, 0xA5E), (0xA66, 0xA6F),
      (0xA72, 0xA74), (0xA85, 0xA8D), (0xA8F, 0xA91), (0xA93, 0xAA8), (0xAAA, 0xAB0),
      (0xAB2, 0xAB3), (0xAB5, 0xAB9), (0xABD, 0xABD), (0xAD0, 0xAD0), (0xAE0, 0xAE1),
      (0xAE6, 0xAEF), (0xAF9, 0xAF9), (0xB05, 0xB0C), (0xB0F, 0xB10), (0xB13, 0xB28),
      (0xB2A, 0xB30), (0xB32, 0xB33), (0xB35, 0xB39), (0xB3D, 0xB3D), (0xB5C, 0xB5D),
      (0xB5F, 0xB61), (0xB66, 0xB6F), (0xB71, 0xB77), (0xB83, 0xB83), (0xB85, 0xB8A),
      (0xB8E, 0xB90), (0xB92, 0xB95), (0xB99, 0xB9A), (0xB9C, 0xB9C), (0xB9E, 0xB9F),
      (0xBA3, 0xBA4), (0xBA8, 0xBAA), (0xBAE, 0xBB9), (0xBD0, 0xBD0), (0xBE6, 0xBF2),
      (0xC05, 0xC0C), (0xC0E, 0xC10), (0xC12, 0xC28), (0xC2A, 0xC39), (0xC3D, 0xC3D),
      (0xC58, 0xC5A), (0xC5D, 0xC5D), (0xC60, 0xC61), (0xC66, 0xC6F), (0xC78, 0xC7E),
      (0xC80, 0xC80), (0xC85, 0xC8C), (0xC8E, 0xC90), (0xC92, 0xCA8), (0xCAA, 0xCB3),
      (0xCB5, 0xCB9), (0xCBD, 0xCBD), (0xCDD, 0xCDE), (0xCE0, 0xCE1), (0xCE6, 0xCEF),
      (0xCF1, 0xCF2), (0xD04, 0xD0C), (0xD0E, 0xD10), (0xD12, 0xD3A), (0xD3D, 0xD3D),
      (0xD4E, 0xD4E), (0xD54, 0xD56), (0xD58, 0xD61), (0xD66, 0xD78), (0xD7A, 0xD7F),
      (0xD85, 0xD96), (0xD9A, 0xDB1), (0xDB3, 0xDBB), (0xDBD, 0xDBD), (0xDC0, 0xDC6),
      (0xDE6, 0xDEF), (0xE01, 0xE30), (0xE32, 0xE33), (0xE40, 0xE46), (0xE50, 0xE59),
      (0xE81, 0xE82), (0xE84, 0xE84), (0xE86, 0xE8A), (0xE8C, 0xEA3), (0xEA5, 0xEA5),
      (0xEA7, 0xEB0), (0xEB2, 0xEB3), (0xEBD, 0xEBD), (0xEC0, 0xEC4), (0xEC6, 0xEC6),
      (0xED0, 0xED9), (0xEDC, 0xEDF), (0xF00, 0xF00), (0xF20, 0xF33), (0xF40, 0xF47),
      (0xF49, 0xF6C), (0xF88, 0xF8C), (0x1000, 0x102A), (0x103F, 0x1049), (0x1050, 0x1055),
      (0x105A, 0x105D), (0x1061, 0x1061), (0x1065, 0x1066), (0x106E, 0x1070),
      (0x1075, 0x1081), (0x108E, 0x108E), (0x1090, 0x1099), (0x10A0, 0x10C5),
      (0x10C7, 0x10C7), (0x10CD, 0x10CD), (0x10D0, 0x10FA), (0x10FC, 0x1248),
      (0x124A, 0x124D), (0x1250, 0x1256), (0x1258, 0x1258), (0x125A, 0x125D),
      (0x1260, 0x1288), (0x128A, 0x128D), (0x1290, 0x12B0), (0x12B2, 0x12B5),
      (0x12B8, 0x12BE), (0x12C0, 0x12C0), (0x12C2, 0x12C5), (0x12C8, 0x12D6),
      (0x12D8, 0x1310), (0x1312, 0x1315), (0x1318, 0x135A), (0x1369, 0x137C),
      (0x1380, 0x138F), (0x13A0, 0x13F5), (0x13F8, 0x13FD), (0x1401, 0x166C),
      (0x166F, 0x167F), (0x1681, 0x169A), (0x16A0, 0x16EA), (0x16EE, 0x16F8),
      (0x1700, 0x1711), (0x171F, 0x1731), (0x1740, 0x1751), (0x1760, 0x176C),
      (0x176E, 0x1770), (0x1780, 0x17B3), (0x17D7, 0x17D7), (0x17DC, 0x17DC),
      (0x17E0, 0x17E9), (0x17F0, 0x17F9), (0x1810, 0x1819), (0x1820, 0x1878),
      (0x1880, 0x1884), (0x1887, 0x18A8), (0x18AA, 0x18AA), (0x18B0, 0x18F5),
      (0x1900, 0x191E), (0x1946, 0x196D), (0x1970, 0x1974), (0x1980, 0x19AB),
      (0x19B0, 0x19C9), (0x19D0, 0x19DA), (0x1A00, 0x1A16), (0x1A20, 0x1A54),
      (0x1A80, 0x1A89), (0x1A90, 0x1A99), (0x1AA7, 0x1AA7), (0x1B05, 0x1B33),
      (0x1B45, 0x1B4C), (0x1B50, 0x1B59), (0x1B83, 0x1BA0), (0x1BAE, 0x1BE5),
      (0x1C00, 0x1C23), (0x1C40, 0x1C49), (0x1C4D, 0x1C7D), (0x1C80, 0x1C88),
      (0x1C90, 0x1CBA), (0x1CBD, 0x1CBF), (0x1CE9, 0x1CEC), (0x1CEE, 0x1CF3),
      (0x1CF5, 0x1CF6), (0x1CFA, 0x1CFA), (0x1D00, 0x1DBF), (0x1E00, 0x1F15),
      (0x1F18, 0x1F1D), (0x1F20, 0x1F45), (0x1F48, 0x1F4D), (0x1F50, 0x1F57),
      (0x1F59, 0x1F59), (0x1F5B, 0x1F5B), (0x1F5D, 0x1F5D), (0x1F5F, 0x1F7D),
      (0x1F80, 0x1FB4), (0x1FB6, 0x1FBC), (0x1FBE, 0x1FBE), (0x1FC2, 0x1FC4),
      (0x1FC6, 0x1FCC), (0x1FD0, 0x1FD3), (0x1FD6, 0x1FDB), (0x1FE0, 0x1FEC),
      (0x1FF2, 0x1FF4), (0x1FF6, 0x1FFC), (0x2070, 0x2071), (0x2074, 0x2079),
      (0x207F, 0x2089), (0x2090, 0x209C), (0x2102, 0x2102), (0x2107, 0x2107),
      (0x210A, 0x2113), (0x2115, 0x2115), (0x2119, 0x211D), (0x2124, 0x2124),
      (0x2126, 0x2126), (0x2128, 0x2128), (0x212A, 0x212D), (0x212F, 0x2139),
      (0x213C, 0x213F), (0x2145, 0x2149), (0x214E, 0x214E), (0x2150, 0x2189),
      (0x2460, 0x249B), (0x24EA, 0x24FF), (0x2776, 0x2793), (0x2C00, 0x2CE4),
      (0x2CEB, 0x2CEE), (0x2CF2, 0x2CF3), (0x2CFD, 0x2CFD), (0x2D00, 0x2D25),
      (0x2D27, 0x2D27), (0x2D2D, 0x2D2D), (0x2D30, 0x2D67), (0x2D6F, 0x2D6F),
      (0x2D80, 0x2D96), (0x2DA0, 0x2DA6), (0x2DA8, 0x2DAE), (0x2DB0, 0x2DB6),
      (0x2DB8, 0x2DBE), (0x2DC0, 0x2DC6), (0x2DC8, 0x2DCE), (0x2DD0, 0x2DD6),
      (0x2DD8, 0x2DDE), (0x2E2F, 0x2E2F), (0x3005, 0x3007), (0x3021, 0x3029),
      (0x3031, 0x3035), (0x3038, 0x303C), (0x3041, 0x3096), (0x309D, 0x309F),
      (0x30A1, 0x30FA), (0x30FC, 0x30FF), (0x3105, 0x312F), (0x3131, 0x318E),
      (0x3192, 0x3195), (0x31A0, 0x31BF), (0x31F0, 0x31FF), (0x3220, 0x3229),
      (0x3248, 0x324F), (0x3251, 0x325F), (0x3280, 0x3289), (0x32B1, 0x32BF),
      (0x3400, 0x4DBF), (0x4E00, 0xA48C), (0xA4D0, 0xA4FD), (0xA500, 0xA60C),
      (0xA610, 0xA62B), (0xA640, 0xA66E), (0xA67F, 0xA69D), (0xA6A0, 0xA6EF),
      (0xA717, 0xA71F), (0xA722, 0xA788), (0xA78B, 0xA7CA), (0xA7D0, 0xA7D1),
      (0xA7D3, 0xA7D3), (0xA7D5, 0xA7D9), (0xA7F2, 0xA801), (0xA803, 0xA805),
      (0xA807, 0xA80A), (0xA80C, 0xA822), (0xA830, 0xA835), (0xA840, 0xA873),
      (0xA882, 0xA8B3), (0xA8D0, 0xA8D9), (0xA8F2, 0xA8F7), (0xA8FB, 0xA8FB),
      (0xA8FD, 0xA8FE), (0xA900, 0xA925), (0xA930, 0xA946), (0xA960, 0xA97C),
      (0xA984, 0xA9B2), (0xA9CF, 0xA9D9), (0xA9E0, 0xA9E4), (0xA9E6, 0xA9FE),
      (0xAA00, 0xAA28), (0xAA40, 0xAA42), (0xAA44, 0xAA4B), (0xAA50, 0xAA59),
      (0xAA60, 0xAA76), (0xAA7A, 0xAA7A), (0xAA7E, 0xAAAF), (0xAAB1, 0xAAB1),
      (0xAAB5, 0xAAB6), (0xAAB9, 0xAABD), (0xAAC0, 0xAAC0), (0xAAC2, 0xAAC2),
      (0xAADB, 0xAADD), (0xAAE0, 0xAAEA), (0xAAF2, 0xAAF4), (0xAB01, 0xAB06),
      (0xAB09, 0xAB0E), (0xAB11, 0xAB16), (0xAB20, 0xAB26), (0xAB28, 0xAB2E),
      (0xAB30, 0xAB5A), (0xAB5C, 0xAB69), (0xAB70, 0xABE2), (0xABF0, 0xABF9),
      (0xAC00, 0xD7A3), (0xD7B0, 0xD7C6), (0xD7CB, 0xD7FB), (0xF900, 0xFA6D),
      (0xFA70, 0xFAD9), (0xFB00, 0xFB06), (0xFB13, 0xFB17), (0xFB1D, 0xFB1D),
      (0xFB1F, 0xFB28), (0xFB2A, 0xFB36), (0xFB38, 0xFB3C), (0xFB3E, 0xFB3E),
      (0xFB40, 0xFB41), (0xFB43, 0xFB44), (0xFB46, 0xFBB1), (0xFBD3, 0xFD3D),
      (0xFD50, 0xFD8F), (0xFD92, 0xFDC7), (0xFDF0, 0xFDFB), (0xFE70, 0xFE74),
      (0xFE76, 0xFEFC), (0xFF10, 0xFF19), (0xFF21, 0xFF3A), (0xFF41, 0xFF5A),
      (0xFF66, 0xFFBE), (0xFFC2, 0xFFC7), (0xFFCA, 0xFFCF), (0xFFD2, 0xFFD7),
      (0xFFDA, 0xFFDC), (0x10000, 0x1000B), (0x1000D, 0x10026), (0x10028, 0x1003A),
      (0x1003C, 0x1003D), (0x1003F, 0x1004D), (0x10050, 0x1005D), (0x10080, 0x100FA),
      (0x10107, 0x10133), (0x10140, 0x10178), (0x1018A, 0x1018B), (0x10280, 0x1029C),
      (0x102A0, 0x102D0), (0x102E1, 0x102FB), (0x10300, 0x10323), (0x1032D, 0x1034A),
      (0x10350, 0x10375), (0x10380, 0x1039D), (0x103A0, 0x103C3), (0x103C8, 0x103CF),
      (0x103D1, 0x103D5), (0x10400, 0x1049D), (0x104A0, 0x104A9), (0x104B0, 0x104D3),
      (0x104D8, 0x104FB), (0x10500, 0x10527), (0x10530, 0x10563), (0x10570, 0x1057A),
      (0x1057C, 0x1058A), (0x1058C, 0x10592), (0x10594, 0x10595), (0x10597, 0x105A1),
      (0x105A3, 0x105B1), (0x105B3, 0x105B9), (0x105BB, 0x105BC), (0x10600, 0x10736),
      (0x10740, 0x10755), (0x10760, 0x10767), (0x10780, 0x10785), (0x10787, 0x107B0),
      (0x107B2, 0x107BA), (0x10800, 0x10805), (0x10808, 0x10808), (0x1080A, 0x10835),
      (0x10837, 0x10838), (0x1083C, 0x1083C), (0x1083F, 0x10855), (0x10858, 0x10876),
      (0x10879, 0x1089E), (0x108A7, 0x108AF), (0x108E0, 0x108F2), (0x108F4, 0x108F5),
      (0x108FB, 0x1091B), (0x10920, 0x10939), (0x10980, 0x109B7), (0x109BC, 0x109CF),
      (0x109D2, 0x10A00), (0x10A10, 0x10A13), (0x10A15, 0x10A17), (0x10A19, 0x10A35),
      (0x10A40, 0x10A48), (0x10A60, 0x10A7E), (0x10A80, 0x10A9F), (0x10AC0, 0x10AC7),
      (0x10AC9, 0x10AE4), (0x10AEB, 0x10AEF), (0x10B00, 0x10B35), (0x10B40, 0x10B55),
      (0x10B58, 0x10B72), (0x10B78, 0x10B91), (0x10BA9, 0x10BAF), (0x10C00, 0x10C48),
      (0x10C80, 0x10CB2), (0x10CC0, 0x10CF2), (0x10CFA, 0x10D23), (0x10D30, 0x10D39),
      (0x10E60, 0x10E7E), (0x10E80, 0x10EA9), (0x10EB0, 0x10EB1), (0x10F00, 0x10F27),
      (0x10F30, 0x10F45), (0x10F51, 0x10F54), (0x10F70, 0x10F81), (0x10FB0, 0x10FCB),
      (0x10FE0, 0x10FF6), (0x11003, 0x11037), (0x11052, 0x1106F), (0x11071, 0x11072),
      (0x11075, 0x11075), (0x11083, 0x110AF), (0x110D0, 0x110E8), (0x110F0, 0x110F9),
      (0x11103, 0x11126), (0x11136, 0x1113F), (0x11144, 0x11144), (0x11147, 0x11147),
      (0x11150, 0x11172), (0x11176, 0x11176), (0x11183, 0x111B2), (0x111C1, 0x111C4),
      (0x111D0, 0x111DA), (0x111DC, 0x111DC), (0x111E1, 0x111F4), (0x11200, 0x11211),
      (0x11213, 0x1122B), (0x11280, 0x11286), (0x11288, 0x11288), (0x1128A, 0x1128D),
      (0x1128F, 0x1129D), (0x1129F, 0x112A8), (0x112B0, 0x112DE), (0x112F0, 0x112F9),
      (0x11305, 0x1130C), (0x1130F, 0x11310), (0x11313, 0x11328), (0x1132A, 0x11330),
      (0x11332, 0x11333), (0x11335, 0x11339), (0x1133D, 0x1133D), (0x11350, 0x11350),
      (0x1135D, 0x11361), (0x11400, 0x11434), (0x11447, 0x1144A), (0x11450, 0x11459),
      (0x1145F, 0x11461), (0x11480, 0x114AF), (0x114C4, 0x114C5), (0x114C7, 0x114C7),
      (0x114D0, 0x114D9), (0x11580, 0x115AE), (0x115D8, 0x115DB), (0x11600, 0x1162F),
      (0x11644, 0x11644), (0x11650, 0x11659), (0x11680, 0x116AA), (0x116B8, 0x116B8),
      (0x116C0, 0x116C9), (0x11700, 0x1171A), (0x11730, 0x1173B), (0x11740, 0x11746),
      (0x11800, 0x1182B), (0x118A0, 0x118F2), (0x118FF, 0x11906), (0x11909, 0x11909),
      (0x1190C, 0x11913), (0x11915, 0x11916), (0x11918, 0x1192F), (0x1193F, 0x1193F),
      (0x11941, 0x11941), (0x11950, 0x11959), (0x119A0, 0x119A7), (0x119AA, 0x119D0),
      (0x119E1, 0x119E1), (0x119E3, 0x119E3), (0x11A00, 0x11A00), (0x11A0B, 0x11A32),
      (0x11A3A, 0x11A3A), (0x11A50, 0x11A50), (0x11A5C, 0x11A89), (0x11A9D, 0x11A9D),
      (0x11AB0, 0x11AF8), (0x11C00, 0x11C08), (0x11C0A, 0x11C2E), (0x11C40, 0x11C40),
      (0x11C50, 0x11C6C), (0x11C72, 0x11C8F), (0x11D00, 0x11D06), (0x11D08, 0x11D09),
      (0x11D0B, 0x11D30), (0x11D46, 0x11D46), (0x11D50, 0x11D59), (0x11D60, 0x11D65),
      (0x11D67, 0x11D68), (0x11D6A, 0x11D89), (0x11D98, 0x11D98), (0x11DA0, 0x11DA9),
      (0x11EE0, 0x11EF2), (0x11FB0, 0x11FB0), (0x11FC0, 0x11FD4), (0x12000, 0x12399),
      (0x12400, 0x1246E), (0x12480, 0x12543), (0x12F90, 0x12FF0), (0x13000, 0x1342E),
      (0x14400, 0x14646), (0x16800, 0x16A38), (0x16A40, 0x16A5E), (0x16A60, 0x16A69),
      (0x16A70, 0x16ABE), (0x16AC0, 0x16AC9), (0x16AD0, 0x16AED), (0x16B00, 0x16B2F),
      (0x16B40, 0x16B43), (0x16B50, 0x16B59), (0x16B5B, 0x16B61), (0x16B63, 0x16B77),
      (0x16B7D, 0x16B8F), (0x16E40, 0x16E96), (0x16F00, 0x16F4A), (0x16F50, 0x16F50),
      (0x16F93, 0x16F9F), (0x16FE0, 0x16FE1), (0x16FE3, 0x16FE3), (0x17000, 0x187F7),
      (0x18800, 0x18CD5), (0x18D00, 0x18D08), (0x1AFF0, 0x1AFF3), (0x1AFF5, 0x1AFFB),
      (0x1AFFD, 0x1AFFE), (0x1B000, 0x1B122), (0x1B150, 0x1B152), (0x1B164, 0x1B167),
      (0x1B170, 0x1B2FB), (0x1BC00, 0x1BC6A), (0x1BC70, 0x1BC7C), (0x1BC80, 0x1BC88),
      (0x1BC90, 0x1BC99), (0x1D2E0, 0x1D2F3), (0x1D360, 0x1D378), (0x1D400, 0x1D454),
      (0x1D456, 0x1D49C), (0x1D49E, 0x1D49F), (0x1D4A2, 0x1D4A2), (0x1D4A5, 0x1D4A6),
      (0x1D4A9, 0x1D4AC), (0x1D4AE, 0x1D4B9), (0x1D4BB, 0x1D4BB), (0x1D4BD, 0x1D4C3),
      (0x1D4C5, 0x1D505), (0x1D507, 0x1D50A), (0x1D50D, 0x1D514), (0x1D516, 0x1D51C),
      (0x1D51E, 0x1D539), (0x1D53B, 0x1D53E), (0x1D540, 0x1D544), (0x1D546, 0x1D546),
      (0x1D54A, 0x1D550), (0x1D552, 0x1D6A5), (0x1D6A8, 0x1D6C0), (0x1D6C2, 0x1D6DA),
      (0x1D6DC, 0x1D6FA), (0x1D6FC, 0x1D714), (0x1D716, 0x1D734), (0x1D736, 0x1D74E),
      (0x1D750, 0x1D76E), (0x1D770, 0x1D788), (0x1D78A, 0x1D7A8), (0x1D7AA, 0x1D7C2),
      (0x1D7C4, 0x1D7CB), (0x1D7CE, 0x1D7FF), (0x1DF00, 0x1DF1E), (0x1E100, 0x1E12C),
      (0x1E137, 0x1E13D), (0x1E140, 0x1E149), (0x1E14E, 0x1E14E), (0x1E290, 0x1E2AD),
      (0x1E2C0, 0x1E2EB), (0x1E2F0, 0x1E2F9), (0x1E7E0, 0x1E7E6), (0x1E7E8, 0x1E7EB),
      (0x1E7ED, 0x1E7EE), (0x1E7F0, 0x1E7FE), (0x1E800, 0x1E8C4), (0x1E8C7, 0x1E8CF),
      (0x1E900, 0x1E943), (0x1E94B, 0x1E94B), (0x1E950, 0x1E959), (0x1EC71, 0x1ECAB),
      (0x1ECAD, 0x1ECAF), (0x1ECB1, 0x1ECB4), (0x1ED01, 0x1ED2D), (0x1ED2F, 0x1ED3D),
      (0x1EE00, 0x1EE03), (0x1EE05, 0x1EE1F), (0x1EE21, 0x1EE22), (0x1EE24, 0x1EE24),
      (0x1EE27, 0x1EE27), (0x1EE29, 0x1EE32), (0x1EE34, 0x1EE37), (0x1EE39, 0x1EE39),
      (0x1EE3B, 0x1EE3B), (0x1EE42, 0x1EE42), (0x1EE47, 0x1EE47), (0x1EE49, 0x1EE49),
      (0x1EE4B, 0x1EE4B), (0x1EE4D, 0x1EE4F), (0x1EE51, 0x1EE52), (0x1EE54, 0x1EE54),
      (0x1EE57, 0x1EE57), (0x1EE59, 0x1EE59), (0x1EE5B, 0x1EE5B), (0x1EE5D, 0x1EE5D),
      (0x1EE5F, 0x1EE5F), (0x1EE61, 0x1EE62), (0x1EE64, 0x1EE64), (0x1EE67, 0x1EE6A),
      (0x1EE6C, 0x1EE72), (0x1EE74, 0x1EE77), (0x1EE79, 0x1EE7C), (0x1EE7E, 0x1EE7E),
      (0x1EE80, 0x1EE89), (0x1EE8B, 0x1EE9B), (0x1EEA1, 0x1EEA3), (0x1EEA5, 0x1EEA9),
      (0x1EEAB, 0x1EEBB), (0x1F100, 0x1F10C), (0x1FBF0, 0x1FBF9), (0x20000, 0x2A6DF),
      (0x2A700, 0x2B738), (0x2B740, 0x2B81D), (0x2B820, 0x2CEA1), (0x2CEB0, 0x2EBE0),
      (0x2F800, 0x2FA1D), (0x30000, 0x3134A)]"

definition isword :: "nat \<Rightarrow> bool" where
  "isword c =
     (if c < 0x80
      then (0x30 \<le> c \<and> c \<le> 0x39) \<or> (0x41 \<le> c \<and> c \<le> 0x5A) \<or> c = 0x5F
             \<or> (0x61 \<le> c \<and> c \<le> 0x7A)
      else in_ranges word_ranges c)"

text \<open>
  A pattern character under \<^verbatim>\<open>re.IGNORECASE\<close>: an ASCII letter matches both its cases,
  and \<open>i\<close>, \<open>s\<close>, \<open>k\<close> also the dotted capital and dotless small i, the long s
  and the Kelvin sign; any other ASCII character matches itself only.
\<close>

definition ieq :: "nat \<Rightarrow> nat \<Rightarrow> bool" where
  "ieq p c =
     (let lo = (if 0x41 \<le> p \<and> p \<le> 0x5A then p + 0x20 else p) in
      if 0x61 \<le> lo \<and> lo \<le> 0x7A
      then c = lo \<or> c + 0x20 = lo
             \<or> (lo = 0x69 \<and> (c = 0x130 \<or> c = 0x131))
             \<or> (lo = 0x73 \<and> c = 0x17F)
             \<or> (lo = 0x6B \<and> c = 0x212A)
      else c = p)"

type_synonym caps = "nat \<Rightarrow> ustr option"

datatype regex =
    Chr "nat \<Rightarrow> bool"
  | Eps
  | Seq regex regex
  | Alt regex regex
  | Rep "nat \<Rightarrow> bool" nat "nat option"
  | Opt regex
  | Grp nat regex
  | WordB

definition word_boundary :: "nat option \<Rightarrow> ustr \<Rightarrow> bool" where
  "word_boundary pv t =
     ((case pv of None \<Rightarrow> False | Some x \<Rightarrow> isword x)
        \<noteq> (case t of [] \<Rightarrow> False | x # _ \<Rightarrow> isword x))"

definition last_char :: "nat option \<Rightarrow> ustr \<Rightarrow> nat option" where
  "last_char pv w = (if w = [] then pv else Some (last w))"

fun ms :: "regex \<Rightarrow> nat option \<Rightarrow> ustr \<Rightarrow> caps \<Rightarrow> (nat option \<times> ustr \<times> caps) list" where
  "ms (Chr p) pv t c = (case t of [] \<Rightarrow> [] | x # r \<Rightarrow> if p x then [(Some x, r, c)] else [])"
| "ms Eps pv t c = [(pv, t, c)]"
| "ms (Seq a b) pv t c = concat (map (\<lambda>(pv', t', c'). ms b pv' t' c') (ms a pv t c))"
| "ms (Alt a b) pv t c = ms a pv t c @ ms b pv t c"
| "ms (Rep p lo hi) pv t c =
     map (\<lambda>w. (last_char pv w, drop (length w) t, c))
       (filter (\<lambda>w. lo \<le> length w \<and> (case hi of None \<Rightarrow> True | Some h \<Rightarrow> length w \<le> h))
          (rev (prefixes (takeWhile p t))))"
| "ms (Opt a) pv t c = ms a pv t c @ [(pv, t, c)]"
| "ms (Grp g a) pv t c =
     map (\<lambda>(pv', t', c'). (pv', t', c'(g \<mapsto> take (length t - length t') t))) (ms a pv t c)"
| "ms WordB pv t c = (if word_boundary pv t then [(pv, t, c)] else [])"

text \<open>
  \<^verbatim>\<open>re.search\<close>: the first match at the leftmost position that has one. The result is the
  text before the match, the matched text and the groups.
\<close>

fun search_loop :: "regex \<Rightarrow> nat option \<Rightarrow> ustr \<Rightarrow> ustr \<Rightarrow> (ustr \<times> ustr \<times> caps) option" where
  "search_loop r pv before t =
     (case ms r pv t Map.empty of
        (pv', t', c') # _ \<Rightarrow> Some (before, take (length t - length t') t, c')
      | [] \<Rightarrow> (case t of
                 [] \<Rightarrow> None
               | x # xs \<Rightarrow> search_loop r (Some x) (before @ [x]) xs))"

definition re_search :: "regex \<Rightarrow> ustr \<Rightarrow> (ustr \<times> ustr \<times> caps) option" where
  "re_search r t = search_loop r None [] t"

definition group :: "caps \<Rightarrow> nat \<Rightarrow> ustr" where
  "group c g = (case c g of None \<Rightarrow> [] | Some w \<Rightarrow> w)"

fun seqs :: "regex list \<Rightarrow> regex" where
  "seqs [] = Eps"
| "seqs [r] = r"
| "seqs (r # rs) = Seq r (seqs rs)"

fun ilit :: "ustr \<Rightarrow> regex" where
  "ilit [] = Eps"
| "ilit [p] = Chr (ieq p)"
| "ilit (p # ps) = Seq (Chr (ieq p)) (ilit ps)"

definition chr_is :: "nat \<Rightarrow> nat \<Rightarrow> bool" where
  "chr_is p c = (c = p)"

definition ascii_digit :: "nat \<Rightarrow> bool" where
  "ascii_digit c = (0x30 \<le> c \<and> c \<le> 0x39)"

section \<open>Text heuristics of the investor extractor\<close>

text \<open>
  \<^verbatim>\<open>float(s)\<close> for an optional sign, decimal digits and an optional fraction, the only
  strings the extractor passes to it. A float is represented by the rational number the
  numeral denotes; the float itself is the nearest double.
\<close>

definition py_float :: "ustr \<Rightarrow> rat option" where
  "py_float s =
     (let neg = (s \<noteq> [] \<and> hd s = 0x2D);
          body = (if s \<noteq> [] \<and> (hd s = 0x2D \<or> hd s = 0x2B) then tl s else s);
          ip = takeWhile (\<lambda>c. c \<noteq> 0x2E) body;
          fp = drop (Suc (length ip)) body
      in if ip = [] \<or> \<not> list_all isdecimal ip \<or> \<not> list_all isdecimal fp
            \<or> (fp = [] \<and> length ip < length body)
         then None
         else let v = of_nat (decimal_number ip) + of_nat (decimal_number fp) / 10 ^ length fp
              in Some (if neg then - v else v))"

text \<open>\<^verbatim>\<open>risk\s*score\s*(\d+)\<close> and \<^verbatim>\<open>risk[^0-9]*(\d+)\s*/\s*10\<close>, ignoring case.\<close>

definition risk_score_re :: regex where
  "risk_score_re =
     seqs [ilit (U ''risk''), Rep isspace 0 None, ilit (U ''score''), Rep isspace 0 None,
           Grp 1 (Rep isdecimal 1 None)]"

definition risk_of_ten_re :: regex where
  "risk_of_ten_re =
     seqs [ilit (U ''risk''), Rep (\<lambda>c. \<not> ascii_digit c) 0 None, Grp 1 (Rep isdecimal 1 None),
           Rep isspace 0 None, Chr (chr_is 0x2F), Rep isspace 0 None, ilit (U ''10'')]"

definition parse_risk_score :: "ustr \<Rightarrow> int option" where
  "parse_risk_score block_text =
     (if block_text = [] then None
      else case re_search risk_score_re block_text of
             Some (_, _, c) \<Rightarrow> py_int (group c 1)
           | None \<Rightarrow>
               (case re_search risk_of_ten_re block_text of
                  Some (_, _, c) \<Rightarrow> py_int (group c 1)
                | None \<Rightarrow> None))"

text \<open>
  \<^verbatim>\<open>(?:12m|12\s*months|1y)[^0-9\-+]*([\-+]?\d+(?:\.\d+)?)\s*%\<close>, ignoring case.
\<close>

definition sign_char :: "nat \<Rightarrow> bool" where
  "sign_char c = (c = 0x2D \<or> c = 0x2B)"

definition sep_char :: "nat \<Rightarrow> bool" where
  "sep_char c = (\<not> ascii_digit c \<and> \<not> sign_char c)"

definition marker_re :: regex where
  "marker_re =
     Alt (ilit (U ''12m''))
       (Alt (seqs [ilit (U ''12''), Rep isspace 0 None, ilit (U ''months'')])
          (ilit (U ''1y'')))"

definition number_re :: regex where
  "number_re =
     seqs [Opt (Chr sign_char), Rep isdecimal 1 None,
           Opt (Seq (Chr (chr_is 0x2E)) (Rep isdecimal 1 None))]"

definition return_12m_re :: regex where
  "return_12m_re =
     seqs [marker_re, Rep sep_char 0 None, Grp 1 number_re, Rep isspace 0 None,
           Chr (chr_is 0x25)]"

definition parse_return_12m :: "ustr \<Rightarrow> rat option" where
  "parse_return_12m block_text =
     (if block_text = [] then None
      else case re_search return_12m_re block_text of
             Some (_, _, c) \<Rightarrow> py_float (group c 1)
           | None \<Rightarrow> None)"

text \<open>\<^verbatim>\<open>_build_stats\<close>: the dictionary of the statistics found, null when it is empty.\<close>

definition build_stats :: "ustr \<Rightarrow> pydict option" where
  "build_stats block_text =
     (let risk = parse_risk_score block_text;
          ret = parse_return_12m block_text;
          stats0 = [];
          stats1 = (case ret of None \<Rightarrow> stats0
                    | Some r \<Rightarrow> dict_set stats0 (U ''return_12m'') (VFloat r));
          stats2 = (case risk of None \<Rightarrow> stats1
                    | Some k \<Rightarrow> dict_set stats1 (U ''risk_score'') (VInt k))
      in if stats2 = [] then None else Some stats2)"

text \<open>
  What a regular expression without \<^verbatim>\<open>\b\<close> matches, independently of the order in which
  the matcher tries: the language of the expression.
\<close>

fun plain :: "regex \<Rightarrow> bool" where
  "plain (Chr p) = True"
| "plain Eps = True"
| "plain (Seq a b) = (plain a \<and> plain b)"
| "plain (Alt a b) = (plain a \<and> plain b)"
| "plain (Rep p lo hi) = True"
| "plain (Opt a) = plain a"
| "plain (Grp g a) = False"
| "plain WordB = False"

fun lang :: "regex \<Rightarrow> ustr \<Rightarrow> bool" where
  "lang (Chr p) w = (\<exists>x. w = [x] \<and> p x)"
| "lang Eps w = (w = [])"
| "lang (Seq a b) w = (\<exists>u v. w = u @ v \<and> lang a u \<and> lang b v)"
| "lang (Alt a b) w = (lang a w \<or> lang b w)"
| "lang (Rep p lo hi) w =
     (list_all p w \<and> lo \<le> length w \<and> (case hi of None \<Rightarrow> True | Some h \<Rightarrow> length w \<le> h))"
| "lang (Opt a) w = (w = [] \<or> lang a w)"
| "lang (Grp g a) w = lang a w"
| "lang WordB w = (w = [])"

text \<open>
  An occurrence of a 12-month return in a text: a marker, separator characters (neither
  ASCII digit nor sign), the number, optional whitespace and the percent sign.
\<close>

definition return_occurrence :: "ustr \<Rightarrow> ustr \<Rightarrow> bool" where
  "return_occurrence t num =
     (\<exists>before mk sep ws after.
        t = before @ mk @ sep @ num @ ws @ [0x25] @ after
        \<and> lang marker_re mk \<and> list_all sep_char sep \<and> lang number_re num
        \<and> list_all isspace ws)"

text \<open>The same with the percent sign immediately after the number.\<close>

definition strict_return_occurrence :: "ustr \<Rightarrow> ustr \<Rightarrow> bool" where
  "strict_return_occurrence t num =
     (\<exists>before mk sep after.
        t = before @ mk @ sep @ num @ [0x25] @ after
        \<and> lang marker_re mk \<and> list_all sep_char sep \<and> lang number_re num)"

text \<open>
  An occurrence located in the text: the text before the marker, the marker with the
  separator (the lead) and the number. The first occurrence is the one whose marker starts
  leftmost and, among the occurrences with that marker start, whose number starts last.
\<close>

definition return_at :: "ustr \<Rightarrow> ustr \<Rightarrow> ustr \<Rightarrow> ustr \<Rightarrow> bool" where
  "return_at t before lead num =
     (\<exists>mk sep ws after.
        t = before @ lead @ num @ ws @ [0x25] @ after \<and> lead = mk @ sep
        \<and> lang marker_re mk \<and> list_all sep_char sep \<and> lang number_re num
        \<and> list_all isspace ws)"

definition first_return :: "ustr \<Rightarrow> ustr \<Rightarrow> ustr \<Rightarrow> ustr \<Rightarrow> bool" where
  "first_return t before lead num =
     (return_at t before lead num
      \<and> (\<forall>before' lead' num'. return_at t before' lead' num' \<longrightarrow>
            length before < length before'
            \<or> (length before = length before' \<and> length lead' \<le> length lead)))"

section \<open>The document tree\<close>

text \<open>
  The extractors work on the tree that \<^verbatim>\<open>BeautifulSoup(html, "lxml")\<close> builds, through
  the methods of the library (Beautiful Soup 4.12 with Soup Sieve); the tree is the input
  here. A node is a tag, with its name, its \<^verbatim>\<open>class\<close> attribute (a list of tokens, absent
  when the tag has none), its other attributes (strings) and its children, or a string with
  the class the parser gave it: plain text and CDATA sections, comments, the contents of
  \<^verbatim>\<open>script\<close>, \<^verbatim>\<open>style\<close>, \<^verbatim>\<open>template\<close>, \<^verbatim>\<open>rt\<close> and \<^verbatim>\<open>rp\<close> tags, and the
  declarations. The document itself is the root tag. A method of a tag looks at the
  descendants of the tag in document order, not at the tag itself, and a tag is always true.
\<close>

datatype kind = Text | CData | Comment | Script | Stylesheet | Template | RubyText
  | RubyParen | Special

datatype node =
    Tag ustr "ustr list option" "(ustr \<times> ustr) list" "node list"
  | Str kind ustr

fun is_tag :: "node \<Rightarrow> bool" where
  "is_tag (Tag n cl ats cs) = True"
| "is_tag (Str k s) = False"

fun tag_name :: "node \<Rightarrow> ustr" where
  "tag_name (Tag n cl ats cs) = n"
| "tag_name (Str k s) = []"

fun tag_class :: "node \<Rightarrow> ustr list option" where
  "tag_class (Tag n cl ats cs) = cl"
| "tag_class (Str k s) = None"

text \<open>\<^verbatim>\<open>tag.get(name)\<close> for an attribute other than \<^verbatim>\<open>class\<close>; \<^verbatim>\<open>tag.has_attr(name)\<close>.\<close>

fun attr :: "node \<Rightarrow> ustr \<Rightarrow> ustr option" where
  "attr (Tag n cl ats cs) a = map_of ats a"
| "attr (Str k s) a = None"

definition has_attr :: "ustr \<Rightarrow> node \<Rightarrow> bool" where
  "has_attr a d = (attr d a \<noteq> None)"

fun descendants :: "node \<Rightarrow> node list" where
  "descendants (Tag n cl ats cs) = concat (map (\<lambda>c. c # descendants c) cs)"
| "descendants (Str k s) = []"

text \<open>
  \<^verbatim>\<open>tag.find_all\<close> and \<^verbatim>\<open>tag.select\<close> give the matching tags in document order, each
  once; \<^verbatim>\<open>tag.find\<close> gives the first of them or null. \<open>select_ids\<close> pairs each selected
  element with its identity, its position among the descendants: two references denote the
  same object exactly when the positions agree.
\<close>

definition find_all :: "(node \<Rightarrow> bool) \<Rightarrow> node \<Rightarrow> node list" where
  "find_all p n = filter (\<lambda>d. is_tag d \<and> p d) (descendants n)"

definition find_first :: "(node \<Rightarrow> bool) \<Rightarrow> node \<Rightarrow> node option" where
  "find_first p n = (case find_all p n of [] \<Rightarrow> None | d # _ \<Rightarrow> Some d)"

definition select_ids :: "(node \<Rightarrow> bool) \<Rightarrow> node \<Rightarrow> (nat \<times> node) list" where
  "select_ids p n = filter (\<lambda>(i, d). is_tag d \<and> p d) (enumerate 0 (descendants n))"

definition named :: "ustr \<Rightarrow> node \<Rightarrow> bool" where
  "named n d = (tag_name d = n)"

text \<open>\<^verbatim>\<open>a or b or ...\<close> on the results of \<^verbatim>\<open>find\<close>: the first that is not null.\<close>

fun first_some :: "'a option list \<Rightarrow> 'a option" where
  "first_some [] = None"
| "first_some (None # xs) = first_some xs"
| "first_some (Some x # xs) = Some x"

text \<open>
  \<^verbatim>\<open>tag.get_text(separator, strip)\<close>: the strings below the tag that are of the classes
  the tag is interested in (plain text and CDATA for all tags but the five with a string
  class of their own), each stripped and the empty ones dropped when \<open>strip\<close> is set,
  joined by the separator. \<^verbatim>\<open>tag.string\<close> is the single string of a tag, looked for
  through tags with a single child.
\<close>

definition interesting_string_types :: "ustr \<Rightarrow> kind list" where
  "interesting_string_types n =
     (if n = U ''rt'' then [RubyText]
      else if n = U ''rp'' then [RubyParen]
      else if n = U ''style'' then [Stylesheet]
      else if n = U ''script'' then [Script]
      else if n = U ''template'' then [Template]
      else [Text, CData])"

fun string_of :: "kind list \<Rightarrow> node \<Rightarrow> ustr list" where
  "string_of ks (Tag n cl ats cs) = []"
| "string_of ks (Str k s) = (if k \<in> set ks then [s] else [])"

definition all_strings :: "bool \<Rightarrow> node \<Rightarrow> ustr list" where
  "all_strings strp n =
     (let ss = concat (map (string_of (interesting_string_types (tag_name n))) (descendants n))
      in if strp then filter (\<lambda>s. s \<noteq> []) (map strip ss) else ss)"

fun join :: "ustr \<Rightarrow> ustr list \<Rightarrow> ustr" where
  "join sep [] = []"
| "join sep [x] = x"
| "join sep (x # y # xs) = x @ sep @ join sep (y # xs)"

definition get_text :: "ustr \<Rightarrow> bool \<Rightarrow> node \<Rightarrow> ustr" where
  "get_text sep strp n = join sep (all_strings strp n)"

fun node_string :: "node \<Rightarrow> ustr option" where
  "node_string (Tag n cl ats [Str k s]) = Some s"
| "node_string (Tag n cl ats [Tag n' cl' ats' cs']) = node_string (Tag n' cl' ats' cs')"
| "node_string (Tag n cl ats []) = None"
| "node_string (Tag n cl ats (a # b # cs)) = None"
| "node_string (Str k s) = None"

text \<open>
  \<^verbatim>\<open>sub in s\<close>; the first piece of \<^verbatim>\<open>s.split(sep)\<close> for a separator that is not empty;
  the pieces of \<^verbatim>\<open>re.split\<close> and \<^verbatim>\<open>s.split(c)\<close> at single characters, and of
  \<^verbatim>\<open>s.split()\<close>.
\<close>

fun contains :: "ustr \<Rightarrow> ustr \<Rightarrow> bool" where
  "contains sub [] = (sub = [])"
| "contains sub (x # xs) = (prefix sub (x # xs) \<or> contains sub xs)"

fun before_first :: "ustr \<Rightarrow> ustr \<Rightarrow> ustr" where
  "before_first sep [] = []"
| "before_first sep (x # xs) = (if prefix sep (x # xs) then [] else x # before_first sep xs)"

fun split_chars :: "(nat \<Rightarrow> bool) \<Rightarrow> ustr \<Rightarrow> ustr list" where
  "split_chars p [] = [[]]"
| "split_chars p (x # xs) =
     (if p x then [] # split_chars p xs
      else case split_chars p xs of
             [] \<Rightarrow> [[x]]
           | w # ws \<Rightarrow> (x # w) # ws)"

definition split_ws :: "ustr \<Rightarrow> ustr list" where
  "split_ws s = filter (\<lambda>w. w \<noteq> []) (split_chars isspace s)"

text \<open>
  The selectors. \<^verbatim>\<open>[class*='x']\<close> looks for \<open>x\<close> in the class tokens joined by
  spaces; \<^verbatim>\<open>[a]\<close> asks for the attribute; \<^verbatim>\<open>.x\<close> for the class token. A function given
  to \<^verbatim>\<open>find\<close> for the class is tried on every token and then on the joined tokens, and
  on null when the tag has no class; the functions of the extractors are all of the form
  \<^verbatim>\<open>lambda c: c and (x in c or ...)\<close>.
\<close>

definition class_contains :: "ustr \<Rightarrow> node \<Rightarrow> bool" where
  "class_contains x d =
     (case tag_class d of None \<Rightarrow> False | Some cs \<Rightarrow> contains x (join [0x20] cs))"

definition has_class :: "ustr \<Rightarrow> node \<Rightarrow> bool" where
  "has_class x d = (case tag_class d of None \<Rightarrow> False | Some cs \<Rightarrow> x \<in> set cs)"

definition class_lambda :: "ustr list \<Rightarrow> node \<Rightarrow> bool" where
  "class_lambda xs d =
     (case tag_class d of
        None \<Rightarrow> False
      | Some cs \<Rightarrow>
          list_ex (\<lambda>c. c \<noteq> [] \<and> list_ex (\<lambda>x. contains x c) xs) cs
          \<or> (let j = join [0x20] cs in j \<noteq> [] \<and> list_ex (\<lambda>x. contains x j) xs))"

definition str_truthy :: "ustr option \<Rightarrow> bool" where
  "str_truthy s = (case s of None \<Rightarrow> False | Some t \<Rightarrow> t \<noteq> [])"

section \<open>The investor extractor\<close>

text \<open>
  \<^verbatim>\<open>parse_investor_page\<close>: the cards are the elements selected by
  \<^verbatim>\<open>[class*='user'], [class*='investor'], [data-etoro-user], [data-user-card]\<close>; a card
  without text is skipped, every other card gives one record.
\<close>

definition card_selector :: "node \<Rightarrow> bool" where
  "card_selector d =
     (class_contains (U ''user'') d \<or> class_contains (U ''investor'') d
      \<or> has_attr (U ''data-etoro-user'') d \<or> has_attr (U ''data-user-card'') d)"

definition stats_value :: "pydict option \<Rightarrow> pyval" where
  "stats_value s = (case s of None \<Rightarrow> VNone | Some d \<Rightarrow> VDict d)"

definition investor_name_of :: "node \<Rightarrow> ustr \<Rightarrow> ustr option" where
  "investor_name_of card_el text =
     (let name_elem = first_some
            [find_first (named (U ''strong'')) card_el,
             find_first (named (U ''b'')) card_el,
             find_first (named (U ''h2'')) card_el,
             find_first (named (U ''h3'')) card_el,
             find_first (\<lambda>d. named (U ''span'') d \<and> class_lambda [U ''name''] d) card_el];
          investor_name = (case name_elem of
                             Some e \<Rightarrow> Some (get_text [] True e)
                           | None \<Rightarrow> None)
      in if \<not> str_truthy investor_name
         then Some (strip (before_first [0x20] (strip (before_first [0x20, 0x20] text))))
         else investor_name)"

definition investor_record :: "node \<Rightarrow> ustr \<Rightarrow> ustr \<Rightarrow> ustr option \<Rightarrow> pydict" where
  "investor_record card_el text source_url category =
     (let investor_name = investor_name_of card_el text;
          stats = build_stats text
      in [(U ''stock_name'', VNone),
          (U ''ticker'', VNone),
          (U ''investor_name'', opt_str investor_name),
          (U ''investor_stats'', stats_value stats),
          (U ''post_content'', VNone),
          (U ''comment_text'', VNone),
          (U ''likes_count'', VNone),
          (U ''post_date'', VNone),
          (U ''category'', opt_str category),
          (U ''source_url'', VStr source_url)])"

fun investor_loop :: "node list \<Rightarrow> ustr \<Rightarrow> ustr option \<Rightarrow> pydict list \<Rightarrow> pydict list" where
  "investor_loop [] source_url category records = records"
| "investor_loop (card_el # cards) source_url category records =
     (let text = get_text [0x20] True card_el
      in if text = [] then investor_loop cards source_url category records
         else investor_loop cards source_url category
                (records @ [investor_record card_el text source_url category]))"

definition parse_investor_page :: "node \<Rightarrow> ustr \<Rightarrow> ustr option \<Rightarrow> pydict list" where
  "parse_investor_page soup source_url category =
     investor_loop (find_all card_selector soup) source_url category []"

section \<open>The stock extractor\<close>

text \<open>
  \<^verbatim>\<open>_guess_ticker_from_title\<close>: the title up to the first opening parenthesis, pipe,
  hyphen or en dash (the first piece of \<^verbatim>\<open>re.split\<close> at that character class), and the
  first match of \<^verbatim>\<open>\b[A-Z]{1,5}\b\<close> in it.
\<close>

definition delim_char :: "nat \<Rightarrow> bool" where
  "delim_char c = (c = 0x28 \<or> c = 0x7C \<or> c = 0x2D \<or> c = 0x2013)"

definition upper_char :: "nat \<Rightarrow> bool" where
  "upper_char c = (0x41 \<le> c \<and> c \<le> 0x5A)"

definition ticker_re :: regex where
  "ticker_re = seqs [WordB, Rep upper_char 1 (Some 5), WordB]"

definition guess_ticker_from_title :: "ustr \<Rightarrow> ustr option" where
  "guess_ticker_from_title title =
     (if title = [] then None
      else let cleaned = (case re_search (Chr delim_char) title of
                            None \<Rightarrow> title
                          | Some (before, _, _) \<Rightarrow> before)
           in case re_search ticker_re cleaned of
                None \<Rightarrow> None
              | Some (_, m, _) \<Rightarrow> Some m)"

text \<open>
  \<^verbatim>\<open>_extract_category\<close>: the content of the \<^verbatim>\<open>etoro:category\<close> meta tag, else the
  last but one part of the first breadcrumb trail with two parts or more.
\<close>

definition meta_with :: "ustr \<Rightarrow> ustr \<Rightarrow> node \<Rightarrow> bool" where
  "meta_with a v d = (named (U ''meta'') d \<and> attr d a = Some v)"

definition breadcrumb_selector :: "node \<Rightarrow> bool" where
  "breadcrumb_selector d =
     ((named (U ''nav'') d \<and> has_class (U ''breadcrumb'') d)
      \<or> has_class (U ''breadcrumb'') d \<or> has_class (U ''breadcrumbs'') d)"

fun crumbs_loop :: "node list \<Rightarrow> ustr option" where
  "crumbs_loop [] = None"
| "crumbs_loop (crumb # crumbs) =
     (let text = join [0x20] (split_ws (get_text [0x20] False crumb));
          parts = filter (\<lambda>p. strip p \<noteq> []) (split_chars (\<lambda>c. c = 0x2F) text)
      in if 2 \<le> length parts then Some (strip (parts ! (length parts - 2)))
         else crumbs_loop crumbs)"

definition extract_category :: "node \<Rightarrow> ustr option" where
  "extract_category soup =
     (let meta_category = find_first (meta_with (U ''name'') (U ''etoro:category'')) soup;
          content = (case meta_category of None \<Rightarrow> None | Some m \<Rightarrow> attr m (U ''content''))
      in if str_truthy content then map_option strip content
         else crumbs_loop (find_all breadcrumb_selector soup))"

text \<open>
  \<^verbatim>\<open>parse_stock_page\<close>. The name is looked for in the Open Graph title, then in the
  first \<^verbatim>\<open>h1\<close>, then in the document title, each step being taken only while the name
  is null or empty.
\<close>

definition derive_stock_name :: "node \<Rightarrow> ustr option" where
  "derive_stock_name soup =
     (let stock_name0 = None;
          og_title = find_first (meta_with (U ''property'') (U ''og:title'')) soup;
          content = (case og_title of None \<Rightarrow> None | Some m \<Rightarrow> attr m (U ''content''));
          stock_name1 = (if str_truthy content then map_option strip content else stock_name0);
          h1 = find_first (named (U ''h1'')) soup;
          stock_name2 =
            (if \<not> str_truthy stock_name1
             then (case h1 of
                     None \<Rightarrow> stock_name1
                   | Some h \<Rightarrow> if get_text [] True h \<noteq> [] then Some (get_text [] True h)
                              else stock_name1)
             else stock_name1);
          title_string = (case find_first (named (U ''title'')) soup of
                            None \<Rightarrow> None
                          | Some t \<Rightarrow> node_string t);
          stock_name3 =
            (if \<not> str_truthy stock_name2 \<and> str_truthy title_string
             then map_option strip title_string
             else stock_name2)
      in stock_name3)"

definition or_empty :: "ustr option \<Rightarrow> ustr" where
  "or_empty s = (if str_truthy s then the s else [])"

definition parse_stock_page :: "node \<Rightarrow> ustr \<Rightarrow> ustr option \<Rightarrow> pydict list" where
  "parse_stock_page soup source_url category =
     (let stock_name = derive_stock_name soup;
          ticker = guess_ticker_from_title (or_empty stock_name);
          category1 =
            (if category = None
             then (let inferred_category = extract_category soup
                   in if str_truthy inferred_category then inferred_category else category)
             else category)
      in if \<not> str_truthy stock_name \<and> \<not> str_truthy ticker then []
         else [[(U ''stock_name'', opt_str stock_name),
                (U ''ticker'', opt_str ticker),
                (U ''investor_name'', VNone),
                (U ''investor_stats'', VNone),
                (U ''post_content'', VNone),
                (U ''comment_text'', VNone),
                (U ''likes_count'', VNone),
                (U ''post_date'', VNone),
                (U ''category'', opt_str category1),
                (U ''source_url'', VStr source_url)]])"

text \<open>
  A ticker word is made of 1 to 5 letters from A to Z. The words of a text are its maximal
  runs of word characters, the pieces between the characters that are not word characters;
  a word boundary is where a word starts or ends.
\<close>

definition ticker_word :: "ustr \<Rightarrow> bool" where
  "ticker_word w = (w \<noteq> [] \<and> length w \<le> 5 \<and> list_all upper_char w)"

definition first_ticker :: "ustr \<Rightarrow> ustr option" where
  "first_ticker t = find ticker_word (split_chars (\<lambda>c. \<not> isword c) t)"

section \<open>The post extractor\<close>

text \<open>
  \<^verbatim>\<open>_parse_timestamp\<close>. The functions of the standard library it calls are parameters:
  whether \<^verbatim>\<open>datetime.fromisoformat\<close> accepts a string, the result of
  \<^verbatim>\<open>datetime.strptime\<close> for a text and a format (null when it raises \<^verbatim>\<open>ValueError\<close>),
  the midnight of the same day (\<^verbatim>\<open>datetime(dt.year, dt.month, dt.day)\<close>) and
  \<^verbatim>\<open>dt.isoformat()\<close>. An element is always true, and the \<^verbatim>\<open>datetime\<close> attribute of a
  tag is a string.
\<close>

record 'dt datetime_lib =
  fromisoformat_ok :: "ustr \<Rightarrow> bool"
  strptime :: "ustr \<Rightarrow> ustr \<Rightarrow> 'dt option"
  date_midnight :: "'dt \<Rightarrow> 'dt"
  isoformat :: "'dt \<Rightarrow> ustr"

definition replace_Z :: "ustr \<Rightarrow> ustr" where
  "replace_Z val = concat (map (\<lambda>c. if c = 0x5A then U ''+00:00'' else [c]) val)"

fun formats_loop :: "'dt datetime_lib \<Rightarrow> ustr \<Rightarrow> ustr list \<Rightarrow> ustr option" where
  "formats_loop lib text [] = None"
| "formats_loop lib text (fmt # fmts) =
     (case strptime lib text fmt of
        None \<Rightarrow> formats_loop lib text fmts
      | Some dt \<Rightarrow>
          (let dt1 = (if fmt = U ''%Y-%m-%d'' then date_midnight lib dt else dt)
           in Some (isoformat lib dt1 @ U ''Z'')))"

definition parse_timestamp :: "'dt datetime_lib \<Rightarrow> node \<Rightarrow> ustr option" where
  "parse_timestamp lib element =
     (let from_attribute =
            (if has_attr (U ''datetime'') element
             then (case attr element (U ''datetime'') of
                     None \<Rightarrow> None
                   | Some val \<Rightarrow>
                       if strip val \<noteq> [] \<and> fromisoformat_ok lib (replace_Z val)
                       then Some val else None)
             else None)
      in case from_attribute of
           Some val \<Rightarrow> Some val
         | None \<Rightarrow>
             (let text = get_text [] True element
              in if text = [] then None
                 else formats_loop lib text
                        [U ''%Y-%m-%dT%H:%M:%S%z'', U ''%Y-%m-%dT%H:%M:%S'', U ''%Y-%m-%d'']))"

text \<open>
  \<^verbatim>\<open>parse_posts_page\<close>. The posts are the elements selected by \<^verbatim>\<open>[class*='post']\<close>,
  \<^verbatim>\<open>[class*='feed-item']\<close> and \<^verbatim>\<open>[class*='status']\<close>, one selector after the other,
  each element kept the first time its identity is seen. A post without text is skipped;
  every other post gives its record, followed by the records of its comments.
\<close>

definition opt_int :: "int option \<Rightarrow> pyval" where
  "opt_int i = (case i of None \<Rightarrow> VNone | Some k \<Rightarrow> VInt k)"

definition post_elements :: "node \<Rightarrow> (nat \<times> node) list" where
  "post_elements soup =
     concat (map (\<lambda>sel. select_ids (class_contains sel) soup)
               [U ''post'', U ''feed-item'', U ''status''])"

fun uniq_loop :: "(nat \<times> node) list \<Rightarrow> nat set \<Rightarrow> (nat \<times> node) list \<Rightarrow> (nat \<times> node) list" where
  "uniq_loop [] seen_ids uniq_posts = uniq_posts"
| "uniq_loop (elem # elems) seen_ids uniq_posts =
     (let key = fst elem
      in if key \<in> seen_ids then uniq_loop elems seen_ids uniq_posts
         else uniq_loop elems (insert key seen_ids) (uniq_posts @ [elem]))"

definition post_body_of :: "node \<Rightarrow> ustr" where
  "post_body_of post =
     (let body_elem =
            (case find_first (class_lambda [U ''content'']) post of
               Some e \<Rightarrow> e
             | None \<Rightarrow> (case find_first (named (U ''p'')) post of
                          Some e \<Rightarrow> e
                        | None \<Rightarrow> post))
      in get_text [0x20] True body_elem)"

definition likes_of :: "node \<Rightarrow> int option" where
  "likes_of elem =
     (case find_first (class_lambda [U ''like'', U ''reaction'']) elem of
        None \<Rightarrow> None
      | Some likes_elem \<Rightarrow> parse_likes (get_text [] False likes_elem))"

definition post_timestamp :: "'dt datetime_lib \<Rightarrow> node \<Rightarrow> ustr option" where
  "post_timestamp lib post =
     (case first_some [find_first (named (U ''time'')) post,
                       find_first (class_lambda [U ''time'']) post] of
        None \<Rightarrow> None
      | Some time_elem \<Rightarrow> parse_timestamp lib time_elem)"

definition base_record :: "'dt datetime_lib \<Rightarrow> node \<Rightarrow> ustr \<Rightarrow> ustr option \<Rightarrow> pydict" where
  "base_record lib post source_url category =
     [(U ''stock_name'', VNone),
      (U ''ticker'', VNone),
      (U ''investor_name'', VNone),
      (U ''investor_stats'', VNone),
      (U ''post_content'', VStr (post_body_of post)),
      (U ''comment_text'', VNone),
      (U ''likes_count'', opt_int (likes_of post)),
      (U ''post_date'', opt_str (post_timestamp lib post)),
      (U ''category'', opt_str category),
      (U ''source_url'', VStr source_url)]"

definition comment_record ::
  "'dt datetime_lib \<Rightarrow> node \<Rightarrow> ustr \<Rightarrow> ustr \<Rightarrow> ustr option \<Rightarrow> ustr \<Rightarrow> ustr option \<Rightarrow> pydict" where
  "comment_record lib comment_elem comment_text post_body timestamp source_url category =
     (let comment_time =
            (case find_first (named (U ''time'')) comment_elem of
               None \<Rightarrow> timestamp
             | Some comment_time_elem \<Rightarrow> parse_timestamp lib comment_time_elem)
      in [(U ''stock_name'', VNone),
          (U ''ticker'', VNone),
          (U ''investor_name'', VNone),
          (U ''investor_stats'', VNone),
          (U ''post_content'', VStr post_body),
          (U ''comment_text'', VStr comment_text),
          (U ''likes_count'', opt_int (likes_of comment_elem)),
          (U ''post_date'', opt_str comment_time),
          (U ''category'', opt_str category),
          (U ''source_url'', VStr source_url)])"

fun comments_loop ::
  "'dt datetime_lib \<Rightarrow> node list \<Rightarrow> ustr \<Rightarrow> ustr option \<Rightarrow> ustr \<Rightarrow> ustr option \<Rightarrow> pydict list
     \<Rightarrow> pydict list" where
  "comments_loop lib [] post_body timestamp source_url category records = records"
| "comments_loop lib (comment_elem # comment_elems) post_body timestamp source_url category records =
     (let comment_text = get_text [0x20] True comment_elem
      in if comment_text = [] \<or> comment_text = post_body
         then comments_loop lib comment_elems post_body timestamp source_url category records
         else comments_loop lib comment_elems post_body timestamp source_url category
                (records @ [comment_record lib comment_elem comment_text post_body timestamp
                              source_url category]))"

fun posts_loop ::
  "'dt datetime_lib \<Rightarrow> node list \<Rightarrow> ustr \<Rightarrow> ustr option \<Rightarrow> pydict list \<Rightarrow> pydict list" where
  "posts_loop lib [] source_url category records = records"
| "posts_loop lib (post # posts) source_url category records =
     (let post_text = get_text [0x20] True post
      in if post_text = [] then posts_loop lib posts source_url category records
         else let post_body = post_body_of post;
                  timestamp = post_timestamp lib post;
                  records1 = records @ [base_record lib post source_url category];
                  comment_elems = find_all (class_contains (U ''comment'')) post;
                  records2 = comments_loop lib comment_elems post_body timestamp source_url
                               category records1
              in posts_loop lib posts source_url category records2)"

definition parse_posts_page ::
  "'dt datetime_lib \<Rightarrow> node \<Rightarrow> ustr \<Rightarrow> ustr option \<Rightarrow> pydict list" where
  "parse_posts_page lib soup source_url category =
     posts_loop lib (map snd (uniq_loop (post_elements soup) {} [])) source_url category []"

text \<open>
  The elements of a list of references in first-seen order, each identity once; the comments
  of a post that give a record; the records of a post.
\<close>

fun first_seen :: "(nat \<times> node) list \<Rightarrow> (nat \<times> node) list" where
  "first_seen [] = []"
| "first_seen (e # es) = e # filter (\<lambda>e'. fst e' \<noteq> fst e) (first_seen es)"

definition surviving_comments :: "node \<Rightarrow> node list" where
  "surviving_comments post =
     filter (\<lambda>c. get_text [0x20] True c \<noteq> [] \<and> get_text [0x20] True c \<noteq> post_body_of post)
       (find_all (class_contains (U ''comment'')) post)"

definition post_records :: "'dt datetime_lib \<Rightarrow> node \<Rightarrow> ustr \<Rightarrow> ustr option \<Rightarrow> pydict list" where
  "post_records lib post source_url category =
     base_record lib post source_url category
     # map (\<lambda>c. comment_record lib c (get_text [0x20] True c) (post_body_of post)
                 (post_timestamp lib post) source_url category)
         (surviving_comments post)"

section \<open>Characters and strings: basic facts\<close>

lemmas char_eval = U_def in_ranges_def space_ranges_def isspace_def decimal_blocks_def
  decimal_value_def isdecimal_def other_digit_ranges_def isdigit_def lstrip_def rstrip_def
  strip_def

lemma isspace_cases:
  "isspace c \<Longrightarrow> c \<in> set [0x9, 0xA, 0xB, 0xC, 0xD, 0x1C, 0x1D, 0x1E, 0x1F, 0x20, 0x85, 0xA0,
     0x1680, 0x2000, 0x2001, 0x2002, 0x2003, 0x2004, 0x2005, 0x2006, 0x2007, 0x2008, 0x2009,
     0x200A, 0x2028, 0x2029, 0x202F, 0x205F, 0x3000]"
  unfolding isspace_def in_ranges_def space_ranges_def
  by simp arith

lemma space_list_not_digit:
  "list_all (\<lambda>c. \<not> isdigit c) [0x9, 0xA, 0xB, 0xC, 0xD, 0x1C, 0x1D, 0x1E, 0x1F, 0x20, 0x85, 0xA0,
     0x1680, 0x2000, 0x2001, 0x2002, 0x2003, 0x2004, 0x2005, 0x2006, 0x2007, 0x2008, 0x2009,
     0x200A, 0x2028, 0x2029, 0x202F, 0x205F, 0x3000]"
  by (simp add: char_eval)

lemma isspace_not_isdigit: "isspace c \<Longrightarrow> \<not> isdigit c"
  using isspace_cases[of c] space_list_not_digit unfolding list_all_iff by blast

lemma rstrip_decomp: "\<exists>ws. s = rstrip s @ ws \<and> list_all isspace ws"
proof -
  have "rev s = takeWhile isspace (rev s) @ dropWhile isspace (rev s)" by simp
  then have "s = rev (dropWhile isspace (rev s)) @ rev (takeWhile isspace (rev s))"
    by (metis rev_append rev_rev_ident)
  moreover have "list_all isspace (rev (takeWhile isspace (rev s)))"
    by (simp add: list_all_iff) (meson set_takeWhileD)
  ultimately show ?thesis unfolding rstrip_def by blast
qed

section \<open>The likes heuristic\<close>

lemma likes_loop_run:
  "likes_loop xs num = (if num = [] then first_digit_run xs else num @ takeWhile isdigit xs)"
  by (induction xs arbitrary: num) (simp_all add: first_digit_run_def)

lemma first_digit_run_lstrip: "first_digit_run (lstrip t) = first_digit_run t"
  unfolding lstrip_def first_digit_run_def
  by (induction t) (simp_all add: isspace_not_isdigit)

lemma first_digit_run_append_nondigits:
  "list_all (\<lambda>c. \<not> isdigit c) ws \<Longrightarrow> first_digit_run (ys @ ws) = first_digit_run ys"
proof (induction ys)
  case Nil
  then show ?case
    by (induction ws) (simp_all add: first_digit_run_def)
next
  case (Cons y ys)
  show ?case
  proof (cases "isdigit y")
    case True
    have "takeWhile isdigit (ys @ ws) = takeWhile isdigit ys"
      using Cons.prems
      by (induction ys) (simp_all add: list_all_iff takeWhile_eq_Nil_iff, (cases ws; simp))
    then show ?thesis using True by (simp add: first_digit_run_def)
  next
    case False
    then show ?thesis using Cons by (simp add: first_digit_run_def)
  qed
qed

lemma first_digit_run_rstrip: "first_digit_run (rstrip s) = first_digit_run s"
proof -
  obtain ws where ws: "s = rstrip s @ ws" "list_all isspace ws"
    using rstrip_decomp by blast
  have "list_all (\<lambda>c. \<not> isdigit c) ws"
    using ws(2) by (simp add: list_all_iff isspace_not_isdigit)
  from first_digit_run_append_nondigits[OF this, of "rstrip s"] ws(1) show ?thesis by simp
qed

lemma first_digit_run_strip: "first_digit_run (strip t) = first_digit_run t"
  by (simp add: strip_def first_digit_run_rstrip first_digit_run_lstrip)

lemma int_digits_decimal:
  "int_digits s acc =
     (if list_all isdecimal s then Some (foldl (\<lambda>a c. 10 * a + digit_val c) acc s) else None)"
  by (induction s arbitrary: acc) (auto simp: isdecimal_def digit_val_def split: option.splits)

lemma parse_likes_run:
  "parse_likes t =
     (let run = first_digit_run t in
      if run \<noteq> [] \<and> length run \<le> int_max_str_digits \<and> list_all isdecimal run
      then Some (int (decimal_number run)) else None)"
proof -
  have "strip t = [] \<Longrightarrow> first_digit_run t = []"
    using first_digit_run_strip[of t] by (simp add: first_digit_run_def)
  then show ?thesis
    by (auto simp: parse_likes_def Let_def likes_loop_run first_digit_run_strip py_int_def
        int_digits_decimal decimal_number_def)
qed

lemma parse_likes_no_digits: "list_all (\<lambda>c. \<not> isdigit c) t \<Longrightarrow> parse_likes t = None"
proof -
  assume "list_all (\<lambda>c. \<not> isdigit c) t"
  then have "first_digit_run t = []"
    by (induction t) (simp_all add: first_digit_run_def)
  then show ?thesis by (simp add: parse_likes_run)
qed

text \<open>
  C8 (as amended). \<^verbatim>\<open>_parse_likes\<close> looks at the first contiguous run of digit
  characters (\<^verbatim>\<open>str.isdigit\<close>) of the text, skipping any lead-in and stopping at the
  first other character after it. It returns the integer the run denotes when the run
  consists of decimal digits only (and is within the interpreter's length limit for
  decimal strings), and null otherwise: when there is no digit, and also when the run
  holds a digit character that \<^verbatim>\<open>int\<close> rejects, such as a superscript digit. The
  result is therefore null or a non-negative integer; "153 likes" gives 153, a heart
  followed by " 42" gives 42, and a text without digit characters gives null.
\<close>

theorem parse_likes_first_digit_run:
  "parse_likes t =
     (let run = first_digit_run t in
      if run \<noteq> [] \<and> length run \<le> int_max_str_digits \<and> list_all isdecimal run
      then Some (int (decimal_number run)) else None)
   \<and> (\<forall>n. parse_likes t = Some n \<longrightarrow> 0 \<le> n)
   \<and> (list_all (\<lambda>c. \<not> isdigit c) t \<longrightarrow> parse_likes t = None)
   \<and> parse_likes (U ''153 likes'') = Some 153
   \<and> parse_likes [0x2665, 0x20, 0x34, 0x32] = Some 42"
proof -
  have "\<forall>n. parse_likes t = Some n \<longrightarrow> 0 \<le> n"
    by (auto simp: parse_likes_run Let_def split: if_splits)
  moreover have "parse_likes (U ''153 likes'') = Some 153"
    by (simp add: parse_likes_def py_int_def int_max_str_digits_def char_eval)
  moreover have "parse_likes [0x2665, 0x20, 0x34, 0x32] = Some 42"
    by (simp add: parse_likes_def py_int_def int_max_str_digits_def char_eval)
  ultimately show ?thesis
    using parse_likes_run[of t] parse_likes_no_digits[of t] by blast
qed

theorem parse_likes_first_digit_run_witness:
  "list_all (\<lambda>c. \<not> isdigit c) (U ''no count'') \<and> parse_likes (U ''no count'') = None
   \<and> parse_likes (U ''likes: 7 of 9'') = Some 7 \<and> (0::int) \<le> 7"
proof -
  have nd: "list_all (\<lambda>c. \<not> isdigit c) (U ''no count'')"
    by (simp add: char_eval)
  have e: "parse_likes (U ''likes: 7 of 9'') = Some 7"
    by (simp add: parse_likes_def py_int_def int_max_str_digits_def char_eval)
  have "\<forall>n. parse_likes (U ''likes: 7 of 9'') = Some n \<longrightarrow> 0 \<le> n"
    using parse_likes_first_digit_run[of "U ''likes: 7 of 9''"] by blast
  with e have "(0::int) \<le> 7" by blast
  with e have "parse_likes (U ''likes: 7 of 9'') = Some 7 \<and> (0::int) \<le> 7" by blast
  moreover have "parse_likes (U ''no count'') = None"
    using nd parse_likes_first_digit_run[of "U ''no count''"] by blast
  ultimately show ?thesis
    using nd by blast
qed

text \<open>
  The superscript two is a digit character, so the run of superscript two, five is the whole text;
  \<^verbatim>\<open>int\<close> rejects it and the result is null, although the text has digits.
\<close>

theorem parse_likes_superscript_counterexample:
  "isdigit 0xB2 \<and> isdigit 0x35
   \<and> first_digit_run [0xB2, 0x35] = [0xB2, 0x35]
   \<and> parse_likes [0xB2, 0x35] = None"
  by (simp add: first_digit_run_def parse_likes_def py_int_def int_max_str_digits_def char_eval)

section \<open>Records and their normalization\<close>

lemma map_of_dict_set: "map_of (dict_set d k v) = (map_of d)(k \<mapsto> v)"
  by (induction d) (auto simp: fun_eq_iff)

lemma keys_dict_set:
  "map fst (dict_set d k v) = (if k \<in> set (map fst d) then map fst d else map fst d @ [k])"
proof (induction d)
  case Nil
  then show ?case by simp
next
  case (Cons a d)
  obtain k' v' where a: "a = (k', v')" by (cases a)
  show ?case using Cons by (cases "k' = k") (simp_all add: a)
qed

lemma map_of_dict_update: "map_of (dict_update d p) = map_of d ++ map_of (rev p)"
  unfolding dict_update_def
proof (induction p arbitrary: d)
  case Nil
  then show ?case by simp
next
  case (Cons a p)
  obtain k v where a: "a = (k, v)" by (cases a)
  show ?case
    by (simp add: a Cons map_of_dict_set fun_eq_iff map_add_def split: option.splits)
qed

lemma map_of_rev_distinct: "distinct (map fst p) \<Longrightarrow> map_of (rev p) = map_of p"
  using map_of_inject_set[of "rev p" p] by (simp add: rev_map[symmetric])

lemma keys_dict_update_subset: "set (map fst d) \<subseteq> set (map fst (dict_update d p))"
  unfolding dict_update_def
proof (induction p arbitrary: d)
  case Nil
  then show ?case by simp
next
  case (Cons a p)
  obtain k v where a: "a = (k, v)" by (cases a)
  have "set (map fst d) \<subseteq> set (map fst (dict_set d k v))"
    by (auto simp: keys_dict_set)
  with Cons[of "dict_set d k v"] show ?case by (auto simp: a)
qed


lemma normalize_record_map_of:
  assumes "distinct (map fst partial)"
  shows "map_of (normalize_record partial category source_url) =
     ((map_of (map (\<lambda>field. (field, VNone)) FIELD_NAMES) ++ map_of partial)
        (U ''category'' \<mapsto>
           py_or (py_or (dict_get partial (U ''category'')) (opt_str category))
             (dict_get partial (U ''category'')),
         U ''source_url'' \<mapsto> py_or (dict_get partial (U ''source_url'')) (VStr source_url)))"
proof -
  have c: "dict_get (dict_update (map (\<lambda>field. (field, VNone)) FIELD_NAMES) partial) (U ''category'')
      = dict_get partial (U ''category'')"
    by (simp add: dict_get_def map_of_dict_update map_of_rev_distinct[OF assms] map_add_def
        FIELD_NAMES_def split: option.splits)
  show ?thesis
    by (simp add: normalize_record_def Let_def map_of_dict_set map_of_dict_update
        map_of_rev_distinct[OF assms] c)
qed


lemma map_of_const_keys: "map_of (map (\<lambda>k. (k, c)) ks) k = (if k \<in> set ks then Some c else None)"
  by (induction ks) auto

lemma category_source_url_fields: "U ''category'' \<in> set FIELD_NAMES" "U ''source_url'' \<in> set FIELD_NAMES"
  "U ''category'' \<noteq> U ''source_url''"
  by (simp_all add: FIELD_NAMES_def U_def)

text \<open>
  C9 (as amended). For every partial record (a \<^verbatim>\<open>dict\<close>, so with distinct keys), passed-in
  category and source URL, \<^verbatim>\<open>normalize_record\<close> returns a mapping with all 10 field names
  present, in which every key other than \<open>category\<close> and \<open>source_url\<close> keeps the
  partial's value when the partial carries it and is null when it is one of the 10 fields
  and the partial does not carry it. \<open>category\<close> is the partial's category if truthy,
  else the passed-in category if truthy, else whatever the partial carries as category
  (a falsy value such as the empty string), null only when the partial carries none.
  \<open>source_url\<close> is the partial's source_url if truthy, else the passed-in source URL.
\<close>

theorem normalize_record_fields:
  assumes "distinct (dict_keys partial)"
  shows "set FIELD_NAMES \<subseteq> set (dict_keys (normalize_record partial category source_url))
    \<and> (\<forall>f. f \<noteq> U ''category'' \<and> f \<noteq> U ''source_url'' \<longrightarrow>
          map_of (normalize_record partial category source_url) f =
            (case map_of partial f of
               Some v \<Rightarrow> Some v
             | None \<Rightarrow> if f \<in> set FIELD_NAMES then Some VNone else None))
    \<and> dict_get (normalize_record partial category source_url) (U ''category'') =
          (let pc = dict_get partial (U ''category'') in
           if truthy pc then pc
           else if truthy (opt_str category) then opt_str category
           else pc)
    \<and> dict_get (normalize_record partial category source_url) (U ''source_url'') =
          (let ps = dict_get partial (U ''source_url'') in
           if truthy ps then ps else VStr source_url)"
proof -
  let ?r = "normalize_record partial category source_url"
  have d: "distinct (map fst partial)" using assms by (simp add: dict_keys_def)
  note m = normalize_record_map_of[OF d, of category source_url]
  have other: "\<forall>f. f \<noteq> U ''category'' \<and> f \<noteq> U ''source_url'' \<longrightarrow>
          map_of ?r f =
            (case map_of partial f of
               Some v \<Rightarrow> Some v
             | None \<Rightarrow> if f \<in> set FIELD_NAMES then Some VNone else None)"
    by (simp add: m map_add_def map_of_const_keys split: option.splits)
  have cat: "map_of ?r (U ''category'') =
      Some (py_or (py_or (dict_get partial (U ''category'')) (opt_str category))
             (dict_get partial (U ''category'')))"
    by (simp add: m category_source_url_fields)
  have src: "map_of ?r (U ''source_url'') =
      Some (py_or (dict_get partial (U ''source_url'')) (VStr source_url))"
    by (simp add: m)
  have "f \<in> set (dict_keys ?r)" if "f \<in> set FIELD_NAMES" for f
  proof -
    have "map_of ?r f \<noteq> None"
    proof (cases "f = U ''category'' \<or> f = U ''source_url''")
      case True
      then show ?thesis using cat src by auto
    next
      case False
      then show ?thesis using other that by (auto split: option.splits)
    qed
    then show ?thesis
      by (simp add: dict_keys_def map_of_eq_None_iff)
  qed
  then have keys: "set FIELD_NAMES \<subseteq> set (dict_keys ?r)" by blast
  have c2: "dict_get ?r (U ''category'') =
          (let pc = dict_get partial (U ''category'') in
           if truthy pc then pc
           else if truthy (opt_str category) then opt_str category
           else pc)"
    by (simp add: dict_get_def[of ?r] cat py_or_def Let_def)
  have s2: "dict_get ?r (U ''source_url'') =
          (let ps = dict_get partial (U ''source_url'') in
           if truthy ps then ps else VStr source_url)"
    by (simp add: dict_get_def[of ?r] src py_or_def Let_def)
  show ?thesis using keys other c2 s2 by blast
qed

lemmas dict_eval = U_def FIELD_NAMES_def dict_keys_def dict_get_def dict_update_def
  normalize_record_def py_or_def opt_str_def

theorem normalize_record_fields_witness:
  "distinct (dict_keys [(U ''ticker'', VStr (U ''TSLA'')), (U ''category'', VStr [])])
   \<and> map_of (normalize_record [(U ''ticker'', VStr (U ''TSLA'')), (U ''category'', VStr [])]
          (Some (U ''Auto'')) (U ''u'')) (U ''ticker'') = Some (VStr (U ''TSLA''))
   \<and> map_of (normalize_record [(U ''ticker'', VStr (U ''TSLA'')), (U ''category'', VStr [])]
          (Some (U ''Auto'')) (U ''u'')) (U ''post_date'') = Some VNone
   \<and> dict_get (normalize_record [(U ''ticker'', VStr (U ''TSLA'')), (U ''category'', VStr [])]
          (Some (U ''Auto'')) (U ''u'')) (U ''category'') = VStr (U ''Auto'')
   \<and> dict_get (normalize_record [(U ''ticker'', VStr (U ''TSLA'')), (U ''category'', VStr [])]
          (Some (U ''Auto'')) (U ''u'')) (U ''source_url'') = VStr (U ''u'')"
proof -
  let ?p = "[(U ''ticker'', VStr (U ''TSLA'')), (U ''category'', VStr [])]"
  have d: "distinct (dict_keys ?p)" by (simp add: dict_keys_def U_def)
  note t = normalize_record_fields[OF d, of "Some (U ''Auto'')" "U ''u''"]
  have a: "U ''ticker'' \<noteq> U ''category'' \<and> U ''ticker'' \<noteq> U ''source_url''"
    "U ''post_date'' \<noteq> U ''category'' \<and> U ''post_date'' \<noteq> U ''source_url''"
    by (simp_all add: U_def)
  have "map_of (normalize_record ?p (Some (U ''Auto'')) (U ''u'')) (U ''ticker'') =
      (case map_of ?p (U ''ticker'') of
         Some v \<Rightarrow> Some v
       | None \<Rightarrow> if U ''ticker'' \<in> set FIELD_NAMES then Some VNone else None)"
    using t a(1) by blast
  also have "\<dots> = Some (VStr (U ''TSLA''))"
    by (simp add: U_def)
  finally have 1: "map_of (normalize_record ?p (Some (U ''Auto'')) (U ''u'')) (U ''ticker'') =
      Some (VStr (U ''TSLA''))" .
  have "map_of (normalize_record ?p (Some (U ''Auto'')) (U ''u'')) (U ''post_date'') =
      (case map_of ?p (U ''post_date'') of
         Some v \<Rightarrow> Some v
       | None \<Rightarrow> if U ''post_date'' \<in> set FIELD_NAMES then Some VNone else None)"
    using t a(2) by blast
  also have "\<dots> = Some VNone"
    by (simp add: U_def FIELD_NAMES_def)
  finally have 2: "map_of (normalize_record ?p (Some (U ''Auto'')) (U ''u'')) (U ''post_date'') =
      Some VNone" .
  have "dict_get (normalize_record ?p (Some (U ''Auto'')) (U ''u'')) (U ''category'') =
      (let pc = dict_get ?p (U ''category'') in
       if truthy pc then pc
       else if truthy (opt_str (Some (U ''Auto''))) then opt_str (Some (U ''Auto'')) else pc)"
    using t by blast
  also have "\<dots> = VStr (U ''Auto'')"
    by (simp add: U_def dict_get_def opt_str_def Let_def)
  finally have 3: "dict_get (normalize_record ?p (Some (U ''Auto'')) (U ''u'')) (U ''category'') =
      VStr (U ''Auto'')" .
  have "dict_get (normalize_record ?p (Some (U ''Auto'')) (U ''u'')) (U ''source_url'') =
      (let ps = dict_get ?p (U ''source_url'') in if truthy ps then ps else VStr (U ''u''))"
    using t by blast
  also have "\<dots> = VStr (U ''u'')"
    by (simp add: U_def dict_get_def Let_def)
  finally have 4: "dict_get (normalize_record ?p (Some (U ''Auto'')) (U ''u'')) (U ''source_url'') =
      VStr (U ''u'')" .
  show ?thesis using d 1 2 3 4 by blast
qed

text \<open>
  A partial record whose category is the empty string, with no passed-in category: the
  normalized category is the empty string, not null.
\<close>

theorem normalize_record_empty_category_counterexample:
  "\<not> truthy (dict_get [(U ''category'', VStr [])] (U ''category''))
   \<and> \<not> truthy (opt_str None)
   \<and> dict_get (normalize_record [(U ''category'', VStr [])] None (U ''https://example.com/''))
         (U ''category'') = VStr []
   \<and> VStr [] \<noteq> VNone"
  by (simp add: dict_eval)

section \<open>The matcher and the language of a regular expression\<close>

lemma last_char_append: "last_char (last_char pv u) v = last_char pv (u @ v)"
  by (simp add: last_char_def)

lemma prefix_takeWhile_iff: "prefix w (takeWhile p t) \<longleftrightarrow> prefix w t \<and> list_all p w"
proof (induction t arbitrary: w)
  case Nil
  then show ?case by auto
next
  case (Cons x t)
  then show ?case by (cases w) auto
qed

lemma mem_Rep:
  "(pv', t', c') \<in> set (ms (Rep p lo hi) pv t c) \<longleftrightarrow>
     (\<exists>w. t = w @ t' \<and> lang (Rep p lo hi) w \<and> pv' = last_char pv w \<and> c' = c)"
proof
  assume "(pv', t', c') \<in> set (ms (Rep p lo hi) pv t c)"
  then obtain w where w: "prefix w (takeWhile p t)" "lo \<le> length w"
      "case hi of None \<Rightarrow> True | Some h \<Rightarrow> length w \<le> h"
      "pv' = last_char pv w" "t' = drop (length w) t" "c' = c"
    by (auto simp: in_set_prefixes)
  from w(1) have "prefix w t" "list_all p w" by (simp_all add: prefix_takeWhile_iff)
  then have "t = w @ t'" using w(5) by (auto simp: prefix_def)
  then show "\<exists>w. t = w @ t' \<and> lang (Rep p lo hi) w \<and> pv' = last_char pv w \<and> c' = c"
    using w \<open>list_all p w\<close> by auto
next
  assume "\<exists>w. t = w @ t' \<and> lang (Rep p lo hi) w \<and> pv' = last_char pv w \<and> c' = c"
  then obtain w where w: "t = w @ t'" "list_all p w" "lo \<le> length w"
      "case hi of None \<Rightarrow> True | Some h \<Rightarrow> length w \<le> h" "pv' = last_char pv w" "c' = c"
    by auto
  have "prefix w (takeWhile p t)" using w(1,2) by (simp add: prefix_takeWhile_iff)
  then have "w \<in> set (filter (\<lambda>w. lo \<le> length w \<and> (case hi of None \<Rightarrow> True | Some h \<Rightarrow> length w \<le> h))
          (rev (prefixes (takeWhile p t))))"
    using w(3,4) by (simp add: in_set_prefixes)
  moreover have "(pv', t', c') = (last_char pv w, drop (length w) t, c)"
    using w by simp
  ultimately show "(pv', t', c') \<in> set (ms (Rep p lo hi) pv t c)"
    unfolding ms.simps set_map by (rule image_eqI[rotated])
qed

lemma mem_Seq:
  "(pv', t', c') \<in> set (ms (Seq a b) pv t c) \<longleftrightarrow>
     (\<exists>pv1 t1 c1. (pv1, t1, c1) \<in> set (ms a pv t c) \<and> (pv', t', c') \<in> set (ms b pv1 t1 c1))"
  by auto

lemma mem_Grp:
  "(pv', t', c') \<in> set (ms (Grp g a) pv t c) \<longleftrightarrow>
     (\<exists>c1. (pv', t', c1) \<in> set (ms a pv t c) \<and> c' = c1(g \<mapsto> take (length t - length t') t))"
proof
  assume "(pv', t', c') \<in> set (ms (Grp g a) pv t c)"
  then obtain x where x: "x \<in> set (ms a pv t c)"
    "(pv', t', c') = (case x of (pv1, t1, c1) \<Rightarrow> (pv1, t1, c1(g \<mapsto> take (length t - length t1) t)))"
    by auto
  obtain pv1 t1 c1 where x3: "x = (pv1, t1, c1)" by (cases x)
  from x show "\<exists>c1. (pv', t', c1) \<in> set (ms a pv t c) \<and> c' = c1(g \<mapsto> take (length t - length t') t)"
    by (auto simp: x3)
next
  assume "\<exists>c1. (pv', t', c1) \<in> set (ms a pv t c) \<and> c' = c1(g \<mapsto> take (length t - length t') t)"
  then obtain c1 where c1: "(pv', t', c1) \<in> set (ms a pv t c)"
    "c' = c1(g \<mapsto> take (length t - length t') t)" by blast
  have "(pv', t', c') = (case (pv', t', c1) of (pv1, t1, c1) \<Rightarrow> (pv1, t1, c1(g \<mapsto> take (length t - length t1) t)))"
    using c1(2) by simp
  with c1(1) show "(pv', t', c') \<in> set (ms (Grp g a) pv t c)"
    unfolding ms.simps set_map by (rule image_eqI[rotated])
qed

lemma ms_Chr_lang:
  "(pv', t', c') \<in> set (ms (Chr p) pv t c) \<longleftrightarrow>
     (\<exists>w. t = w @ t' \<and> lang (Chr p) w \<and> pv' = last_char pv w \<and> c' = c)"
proof (cases t)
  case Nil
  then show ?thesis by simp
next
  case (Cons x r)
  have "(\<exists>w. t = w @ t' \<and> lang (Chr p) w \<and> pv' = last_char pv w \<and> c' = c)
      \<longleftrightarrow> (\<exists>y. t = [y] @ t' \<and> p y \<and> pv' = last_char pv [y] \<and> c' = c)"
    by (simp only: lang.simps) blast
  also have "\<dots> \<longleftrightarrow> (r = t' \<and> p x \<and> pv' = Some x \<and> c' = c)"
    using Cons by (auto simp: last_char_def)
  finally show ?thesis using Cons by auto
qed

lemma ms_Eps_lang:
  "(pv', t', c') \<in> set (ms Eps pv t c) \<longleftrightarrow>
     (\<exists>w. t = w @ t' \<and> lang Eps w \<and> pv' = last_char pv w \<and> c' = c)"
  by (auto simp: last_char_def)

lemma ms_plain:
  "plain r \<Longrightarrow> (pv', t', c') \<in> set (ms r pv t c) \<longleftrightarrow>
     (\<exists>w. t = w @ t' \<and> lang r w \<and> pv' = last_char pv w \<and> c' = c)"
proof (induction r arbitrary: pv t c pv' t' c')
  case (Chr p)
  show ?case by (rule ms_Chr_lang)
next
  case Eps
  show ?case by (rule ms_Eps_lang)
next
  case (Seq a b)
  then have a: "\<And>pv t c pv' t' c'. (pv', t', c') \<in> set (ms a pv t c) \<longleftrightarrow>
       (\<exists>w. t = w @ t' \<and> lang a w \<and> pv' = last_char pv w \<and> c' = c)"
    and b: "\<And>pv t c pv' t' c'. (pv', t', c') \<in> set (ms b pv t c) \<longleftrightarrow>
       (\<exists>w. t = w @ t' \<and> lang b w \<and> pv' = last_char pv w \<and> c' = c)"
    by simp_all
  show ?case
  proof
    assume "(pv', t', c') \<in> set (ms (Seq a b) pv t c)"
    then obtain pv1 t1 c1 where 1: "(pv1, t1, c1) \<in> set (ms a pv t c)"
      and 2: "(pv', t', c') \<in> set (ms b pv1 t1 c1)"
      unfolding mem_Seq by blast
    from 1 obtain u where u: "t = u @ t1" "lang a u" "pv1 = last_char pv u" "c1 = c"
      unfolding a by blast
    from 2 obtain v where v: "t1 = v @ t'" "lang b v" "pv' = last_char pv1 v" "c' = c1"
      unfolding b by blast
    have "t = (u @ v) @ t'" using u(1) v(1) by simp
    moreover have "lang (Seq a b) (u @ v)" using u(2) v(2) by (simp only: lang.simps) blast
    moreover have "pv' = last_char pv (u @ v)" using u(3) v(3) by (simp add: last_char_append)
    moreover have "c' = c" using u(4) v(4) by simp
    ultimately show "\<exists>w. t = w @ t' \<and> lang (Seq a b) w \<and> pv' = last_char pv w \<and> c' = c"
      by blast
  next
    assume "\<exists>w. t = w @ t' \<and> lang (Seq a b) w \<and> pv' = last_char pv w \<and> c' = c"
    then obtain w where w: "t = w @ t'" "lang (Seq a b) w" "pv' = last_char pv w" "c' = c"
      by blast
    from w(2) obtain u v where uv: "w = u @ v" "lang a u" "lang b v"
      by (simp only: lang.simps) blast
    have "(last_char pv u, v @ t', c) \<in> set (ms a pv t c)"
      unfolding a using uv w(1) by simp
    moreover have "(pv', t', c') \<in> set (ms b (last_char pv u) (v @ t') c)"
      unfolding b using uv w by (simp add: last_char_append)
    ultimately show "(pv', t', c') \<in> set (ms (Seq a b) pv t c)"
      unfolding mem_Seq by blast
  qed
next
  case (Alt a b)
  then have a: "\<And>pv t c pv' t' c'. (pv', t', c') \<in> set (ms a pv t c) \<longleftrightarrow>
       (\<exists>w. t = w @ t' \<and> lang a w \<and> pv' = last_char pv w \<and> c' = c)"
    and b: "\<And>pv t c pv' t' c'. (pv', t', c') \<in> set (ms b pv t c) \<longleftrightarrow>
       (\<exists>w. t = w @ t' \<and> lang b w \<and> pv' = last_char pv w \<and> c' = c)"
    by simp_all
  show ?case
    by (simp only: ms.simps set_append Un_iff a b lang.simps) blast
next
  case (Rep p lo hi)
  show ?case by (rule mem_Rep)
next
  case (Opt a)
  then have a: "\<And>pv t c pv' t' c'. (pv', t', c') \<in> set (ms a pv t c) \<longleftrightarrow>
       (\<exists>w. t = w @ t' \<and> lang a w \<and> pv' = last_char pv w \<and> c' = c)"
    by simp
  have e: "(pv', t', c') \<in> set [(pv, t, c)] \<longleftrightarrow>
       (\<exists>w. t = w @ t' \<and> w = [] \<and> pv' = last_char pv w \<and> c' = c)"
    by (auto simp: last_char_def)
  show ?case
    by (simp only: ms.simps set_append Un_iff a e lang.simps) blast
next
  case (Grp g a)
  then show ?case by simp
next
  case WordB
  then show ?case by simp
qed

lemma last_char_Cons: "last_char pv (x # u) = last_char (Some x) u"
  by (simp add: last_char_def)

lemma ms_suffix:
  "(pv', t', c') \<in> set (ms r pv t c) \<Longrightarrow> \<exists>w. t = w @ t' \<and> pv' = last_char pv w"
proof (induction r arbitrary: pv t c pv' t' c')
  case (Chr p)
  then show ?case using ms_Chr_lang[of pv' t' c' p pv t c] by blast
next
  case Eps
  then show ?case using ms_Eps_lang[of pv' t' c' pv t c] by blast
next
  case (Seq a b)
  from Seq.prems obtain pv1 t1 c1 where 1: "(pv1, t1, c1) \<in> set (ms a pv t c)"
    and 2: "(pv', t', c') \<in> set (ms b pv1 t1 c1)"
    unfolding mem_Seq by blast
  from Seq.IH(1)[OF 1] obtain u where u: "t = u @ t1" "pv1 = last_char pv u" by blast
  from Seq.IH(2)[OF 2] obtain v where v: "t1 = v @ t'" "pv' = last_char pv1 v" by blast
  have "t = (u @ v) @ t'" "pv' = last_char pv (u @ v)"
    using u v by (simp_all add: last_char_append)
  then show ?case by blast
next
  case (Alt a b)
  from Alt.prems have "(pv', t', c') \<in> set (ms a pv t c) \<or> (pv', t', c') \<in> set (ms b pv t c)"
    by simp
  then show ?case using Alt.IH by blast
next
  case (Rep p lo hi)
  then show ?case unfolding mem_Rep by blast
next
  case (Opt a)
  from Opt.prems have "(pv', t', c') \<in> set (ms a pv t c) \<or> (pv', t', c') = (pv, t, c)"
    by auto
  then show ?case
  proof
    assume "(pv', t', c') \<in> set (ms a pv t c)"
    then show ?thesis using Opt.IH by blast
  next
    assume "(pv', t', c') = (pv, t, c)"
    then have "t = [] @ t'" "pv' = last_char pv []" by (simp_all add: last_char_def)
    then show ?thesis by blast
  qed
next
  case (Grp g a)
  then show ?case unfolding mem_Grp by blast
next
  case WordB
  then have "t = [] @ t'" "pv' = last_char pv []"
    by (simp_all add: last_char_def split: if_splits)
  then show ?case by blast
qed

lemma search_loop_Some:
  "search_loop r pv before t = Some (b, m, c) \<Longrightarrow>
     \<exists>u rest pv'. t = u @ m @ rest \<and> b = before @ u
        \<and> (pv', rest, c) \<in> set (ms r (last_char pv u) (m @ rest) Map.empty)"
proof (induction t arbitrary: pv before)
  case Nil
  from Nil obtain pv' t' where h: "ms r pv [] Map.empty \<noteq> []"
      "hd (ms r pv [] Map.empty) = (pv', t', c)" "b = before" "m = take (0 - length t') []"
    by (auto split: list.splits)
  then have mem: "(pv', t', c) \<in> set (ms r pv [] Map.empty)"
    by (metis hd_in_set)
  from ms_suffix[OF mem] have "t' = []" by simp
  with mem h show ?case by (auto simp: last_char_def)
next
  case (Cons x xs)
  show ?case
  proof (cases "ms r pv (x # xs) Map.empty")
    case Nil
    with Cons.prems have "search_loop r (Some x) (before @ [x]) xs = Some (b, m, c)"
      by simp
    from Cons.IH[OF this] obtain u rest pv' where u: "xs = u @ m @ rest" "b = (before @ [x]) @ u"
      "(pv', rest, c) \<in> set (ms r (last_char (Some x) u) (m @ rest) Map.empty)"
      by blast
    have "x # xs = (x # u) @ m @ rest" "b = before @ (x # u)"
      "last_char pv (x # u) = last_char (Some x) u"
      using u by (simp_all add: last_char_Cons)
    with u(3) show ?thesis by metis
  next
    case (Cons a list)
    obtain pv' t' c' where a: "a = (pv', t', c')" by (cases a)
    with Cons Cons.prems have r: "b = before" "m = take (length (x # xs) - length t') (x # xs)" "c' = c"
      by simp_all
    have mem: "(pv', t', c) \<in> set (ms r pv (x # xs) Map.empty)"
      using Cons a r by simp
    from ms_suffix[OF mem] obtain w where w: "x # xs = w @ t'" by blast
    then have "m = w" using r(2) by (metis append_eq_conv_conj length_append add_diff_cancel_right')
    then have "x # xs = [] @ m @ t'" "b = before @ []" using w r by simp_all
    moreover have "(pv', t', c) \<in> set (ms r (last_char pv []) (m @ t') Map.empty)"
      using mem w \<open>m = w\<close> by (simp add: last_char_def)
    ultimately show ?thesis by blast
  qed
qed

lemma search_loop_None:
  "search_loop r pv before t = None \<longleftrightarrow>
     (\<forall>u v. t = u @ v \<longrightarrow> ms r (last_char pv u) v Map.empty = [])"
proof (induction t arbitrary: pv before)
  case Nil
  show ?case by (auto simp: last_char_def split: list.splits)
next
  case (Cons x xs)
  have split: "(\<forall>u v. x # xs = u @ v \<longrightarrow> ms r (last_char pv u) v Map.empty = []) \<longleftrightarrow>
      ms r pv (x # xs) Map.empty = []
      \<and> (\<forall>u v. xs = u @ v \<longrightarrow> ms r (last_char (Some x) u) v Map.empty = [])"
  proof
    assume h: "\<forall>u v. x # xs = u @ v \<longrightarrow> ms r (last_char pv u) v Map.empty = []"
    from h[rule_format, of "[]" "x # xs"] have 1: "ms r pv (x # xs) Map.empty = []"
      by (simp add: last_char_def)
    have "ms r (last_char (Some x) u) v Map.empty = []" if "xs = u @ v" for u v
      using h[rule_format, of "x # u" v] that by (simp add: last_char_Cons)
    with 1 show "ms r pv (x # xs) Map.empty = []
      \<and> (\<forall>u v. xs = u @ v \<longrightarrow> ms r (last_char (Some x) u) v Map.empty = [])" by blast
  next
    assume h: "ms r pv (x # xs) Map.empty = []
      \<and> (\<forall>u v. xs = u @ v \<longrightarrow> ms r (last_char (Some x) u) v Map.empty = [])"
    show "\<forall>u v. x # xs = u @ v \<longrightarrow> ms r (last_char pv u) v Map.empty = []"
    proof (intro allI impI)
      fix u v assume e: "x # xs = u @ v"
      show "ms r (last_char pv u) v Map.empty = []"
      proof (cases u)
        case Nil
        then show ?thesis using e h by (simp add: last_char_def)
      next
        case (Cons y u')
        then have "xs = u' @ v" "y = x" using e by simp_all
        then show ?thesis using h Cons by (simp add: last_char_Cons)
      qed
    qed
  qed
  show ?case
    unfolding split using Cons.IH[of "Some x" "before @ [x]"]
    by (auto split: list.splits)
qed

section \<open>The 12-month return heuristic\<close>

lemma plain_ilit: "plain (ilit p)"
  by (induction p rule: ilit.induct) simp_all

lemma plain_marker_re: "plain marker_re"
  by (simp add: marker_re_def plain_ilit)

lemma plain_number_re: "plain number_re"
  by (simp add: number_re_def)

lemma lang_Rep_star: "lang (Rep p 0 None) w \<longleftrightarrow> list_all p w"
  by simp

lemma ms_return_12m_re:
  "(pv', t', c') \<in> set (ms return_12m_re pv t c) \<longleftrightarrow>
     (\<exists>mk sep num ws. t = mk @ sep @ num @ ws @ [0x25] @ t'
        \<and> lang marker_re mk \<and> list_all sep_char sep \<and> lang number_re num
        \<and> list_all isspace ws \<and> c' = c(1 \<mapsto> num) \<and> pv' = Some 0x25)"
proof
  assume "(pv', t', c') \<in> set (ms return_12m_re pv t c)"
  then obtain pv1 t1 c1 pv2 t2 c2 pv3 t3 c3 pv4 t4 c4 where
    1: "(pv1, t1, c1) \<in> set (ms marker_re pv t c)" and
    2: "(pv2, t2, c2) \<in> set (ms (Rep sep_char 0 None) pv1 t1 c1)" and
    3: "(pv3, t3, c3) \<in> set (ms (Grp 1 number_re) pv2 t2 c2)" and
    4: "(pv4, t4, c4) \<in> set (ms (Rep isspace 0 None) pv3 t3 c3)" and
    5: "(pv', t', c') \<in> set (ms (Chr (chr_is 0x25)) pv4 t4 c4)"
    unfolding return_12m_re_def seqs.simps mem_Seq by blast
  from 1 obtain mk where mk: "t = mk @ t1" "lang marker_re mk" "c1 = c"
    unfolding ms_plain[OF plain_marker_re] by blast
  from 2 obtain sep where sep: "t1 = sep @ t2" "list_all sep_char sep" "c2 = c1"
    unfolding mem_Rep lang_Rep_star by blast
  from 3 obtain c3' where g: "(pv3, t3, c3') \<in> set (ms number_re pv2 t2 c2)"
    "c3 = c3'(1 \<mapsto> take (length t2 - length t3) t2)"
    unfolding mem_Grp by blast
  from g(1) obtain num where num: "t2 = num @ t3" "lang number_re num" "c3' = c2"
    unfolding ms_plain[OF plain_number_re] by blast
  have c3: "c3 = c(1 \<mapsto> num)" using g(2) num(1,3) sep(3) mk(3) by simp
  from 4 obtain ws where ws: "t3 = ws @ t4" "list_all isspace ws" "c4 = c3"
    unfolding mem_Rep lang_Rep_star by blast
  from 5 obtain w where w: "t4 = w @ t'" "lang (Chr (chr_is 0x25)) w" "pv' = last_char pv4 w"
    "c' = c4"
    unfolding ms_Chr_lang by blast
  from w(2) have w1: "w = [0x25]" by (auto simp: chr_is_def)
  have "t = mk @ sep @ num @ ws @ [0x25] @ t'"
    using mk(1) sep(1) num(1) ws(1) w(1) w1 by simp
  moreover have "c' = c(1 \<mapsto> num)" using w(4) ws(3) c3 by simp
  moreover have "pv' = Some 0x25" using w(3) w1 by (simp add: last_char_def)
  ultimately show "\<exists>mk sep num ws. t = mk @ sep @ num @ ws @ [0x25] @ t'
        \<and> lang marker_re mk \<and> list_all sep_char sep \<and> lang number_re num
        \<and> list_all isspace ws \<and> c' = c(1 \<mapsto> num) \<and> pv' = Some 0x25"
    using mk(2) sep(2) num(2) ws(2) by blast
next
  assume "\<exists>mk sep num ws. t = mk @ sep @ num @ ws @ [0x25] @ t'
        \<and> lang marker_re mk \<and> list_all sep_char sep \<and> lang number_re num
        \<and> list_all isspace ws \<and> c' = c(1 \<mapsto> num) \<and> pv' = Some 0x25"
  then obtain mk sep num ws where h: "t = mk @ sep @ num @ ws @ [0x25] @ t'"
    "lang marker_re mk" "list_all sep_char sep" "lang number_re num"
    "list_all isspace ws" "c' = c(1 \<mapsto> num)" "pv' = Some 0x25"
    by blast
  let ?t1 = "sep @ num @ ws @ [0x25] @ t'"
  let ?t2 = "num @ ws @ [0x25] @ t'"
  let ?t3 = "ws @ [0x25] @ t'"
  let ?t4 = "[0x25] @ t'"
  let ?pv1 = "last_char pv mk"
  let ?pv2 = "last_char ?pv1 sep"
  let ?pv3 = "last_char ?pv2 num"
  let ?pv4 = "last_char ?pv3 ws"
  have 1: "(?pv1, ?t1, c) \<in> set (ms marker_re pv t c)"
    unfolding ms_plain[OF plain_marker_re] using h(1,2) by blast
  have 2: "(?pv2, ?t2, c) \<in> set (ms (Rep sep_char 0 None) ?pv1 ?t1 c)"
    unfolding mem_Rep lang_Rep_star using h(3) by blast
  have "(?pv3, ?t3, c) \<in> set (ms number_re ?pv2 ?t2 c)"
    unfolding ms_plain[OF plain_number_re] using h(4) by blast
  moreover have "take (length ?t2 - length ?t3) ?t2 = num" by simp
  ultimately have 3: "(?pv3, ?t3, c(1 \<mapsto> num)) \<in> set (ms (Grp 1 number_re) ?pv2 ?t2 c)"
    unfolding mem_Grp by metis
  have 4: "(?pv4, ?t4, c(1 \<mapsto> num)) \<in> set (ms (Rep isspace 0 None) ?pv3 ?t3 (c(1 \<mapsto> num)))"
    unfolding mem_Rep lang_Rep_star using h(5) by blast
  have "lang (Chr (chr_is 0x25)) [0x25]" by (simp add: chr_is_def)
  moreover have "Some 0x25 = last_char ?pv4 [0x25]" by (simp add: last_char_def)
  ultimately have 5: "(Some 0x25, t', c(1 \<mapsto> num)) \<in> set (ms (Chr (chr_is 0x25)) ?pv4 ?t4 (c(1 \<mapsto> num)))"
    unfolding ms_Chr_lang by blast
  show "(pv', t', c') \<in> set (ms return_12m_re pv t c)"
    unfolding return_12m_re_def seqs.simps mem_Seq h(6,7)
    using 1 2 3 4 5 by blast
qed

lemma decimal_blocks_ge: "list_all (\<lambda>b. 0x30 \<le> b) decimal_blocks"
  by (simp add: decimal_blocks_def)

lemma isdecimal_ge: "isdecimal c \<Longrightarrow> 0x30 \<le> c"
proof -
  assume "isdecimal c"
  then obtain b where "find (\<lambda>b. b \<le> c \<and> c < b + 10) decimal_blocks = Some b"
    by (auto simp: isdecimal_def decimal_value_def split: option.splits)
  then have "b \<in> set decimal_blocks" "b \<le> c"
    by (auto simp: find_Some_iff)
  with decimal_blocks_ge show ?thesis by (auto simp: list_all_iff)
qed


lemma lang_SeqD: "lang (Seq a b) w \<Longrightarrow> \<exists>u v. w = u @ v \<and> lang a u \<and> lang b v"
  by simp

lemma lang_sign_opt: "lang (Opt (Chr sign_char)) sg \<Longrightarrow> sg = [] \<or> (\<exists>x. sg = [x] \<and> sign_char x)"
  by simp

lemma lang_digits1: "lang (Rep isdecimal 1 None) ip \<Longrightarrow> ip \<noteq> [] \<and> list_all isdecimal ip"
  by (cases ip) simp_all

lemma lang_fraction_opt:
  "lang (Opt (Seq (Chr (chr_is 0x2E)) (Rep isdecimal 1 None))) fp \<Longrightarrow>
     fp = [] \<or> (\<exists>fd. fp = 0x2E # fd \<and> fd \<noteq> [] \<and> list_all isdecimal fd)"
proof -
  assume "lang (Opt (Seq (Chr (chr_is 0x2E)) (Rep isdecimal 1 None))) fp"
  then have "fp = [] \<or> lang (Seq (Chr (chr_is 0x2E)) (Rep isdecimal 1 None)) fp"
    by (simp only: lang.simps)
  then show ?thesis
  proof
    assume "fp = []"
    then show ?thesis by blast
  next
    assume "lang (Seq (Chr (chr_is 0x2E)) (Rep isdecimal 1 None)) fp"
    from lang_SeqD[OF this] obtain u fd where u: "fp = u @ fd" "lang (Chr (chr_is 0x2E)) u"
      "lang (Rep isdecimal 1 None) fd" by blast
    from u(2) have "u = [0x2E]" by (simp add: chr_is_def)
    moreover from lang_digits1[OF u(3)] have "fd \<noteq> []" "list_all isdecimal fd" by simp_all
    ultimately show ?thesis using u(1) by simp
  qed
qed

lemma lang_number_reD:
  "lang number_re num \<Longrightarrow>
     \<exists>sg ip fp. num = sg @ ip @ fp \<and> (sg = [] \<or> (\<exists>x. sg = [x] \<and> sign_char x))
       \<and> ip \<noteq> [] \<and> list_all isdecimal ip
       \<and> (fp = [] \<or> (\<exists>fd. fp = 0x2E # fd \<and> fd \<noteq> [] \<and> list_all isdecimal fd))"
proof -
  assume "lang number_re num"
  then have "lang (Seq (Opt (Chr sign_char)) (Seq (Rep isdecimal 1 None)
      (Opt (Seq (Chr (chr_is 0x2E)) (Rep isdecimal 1 None))))) num"
    by (simp only: number_re_def seqs.simps)
  from lang_SeqD[OF this] obtain sg v where 1: "num = sg @ v" "lang (Opt (Chr sign_char)) sg"
    "lang (Seq (Rep isdecimal 1 None) (Opt (Seq (Chr (chr_is 0x2E)) (Rep isdecimal 1 None)))) v"
    by blast
  from lang_SeqD[OF 1(3)] obtain ip fp where 2: "v = ip @ fp" "lang (Rep isdecimal 1 None) ip"
    "lang (Opt (Seq (Chr (chr_is 0x2E)) (Rep isdecimal 1 None))) fp"
    by blast
  show ?thesis
    using 1(1) 2(1) lang_sign_opt[OF 1(2)] lang_digits1[OF 2(2)] lang_fraction_opt[OF 2(3)]
    by blast
qed

lemma lang_number_re_last: "lang number_re num \<Longrightarrow> num \<noteq> [] \<and> isdecimal (last num)"
proof -
  assume "lang number_re num"
  from lang_number_reD[OF this] obtain sg ip fp where h: "num = sg @ ip @ fp"
    "ip \<noteq> []" "list_all isdecimal ip"
    "fp = [] \<or> (\<exists>fd. fp = 0x2E # fd \<and> fd \<noteq> [] \<and> list_all isdecimal fd)"
    by blast
  from h(4) show ?thesis
  proof
    assume "fp = []"
    then show ?thesis using h(1,2,3) by (simp add: list_all_iff)
  next
    assume "\<exists>fd. fp = 0x2E # fd \<and> fd \<noteq> [] \<and> list_all isdecimal fd"
    then obtain fd where "fp = 0x2E # fd" "fd \<noteq> []" "list_all isdecimal fd" by blast
    then show ?thesis using h(1) by (simp add: list_all_iff)
  qed
qed

lemma py_float_number: "lang number_re num \<Longrightarrow> py_float num \<noteq> None"
proof -
  assume "lang number_re num"
  from lang_number_reD[OF this] obtain sg ip fp where h: "num = sg @ ip @ fp"
    "sg = [] \<or> (\<exists>x. sg = [x] \<and> sign_char x)"
    "ip \<noteq> []" "list_all isdecimal ip"
    "fp = [] \<or> (\<exists>fd. fp = 0x2E # fd \<and> fd \<noteq> [] \<and> list_all isdecimal fd)"
    by blast
  have nd: "c \<noteq> 0x2E \<and> c \<noteq> 0x2D \<and> c \<noteq> 0x2B" if "c \<in> set ip" for c
  proof -
    from that h(4) have "isdecimal c" by (simp add: list_all_iff)
    from isdecimal_ge[OF this] show ?thesis by simp
  qed
  have hd_ip: "hd ip \<noteq> 0x2D \<and> hd ip \<noteq> 0x2B" using nd[of "hd ip"] h(3) by simp
  have body: "(if num \<noteq> [] \<and> (hd num = 0x2D \<or> hd num = 0x2B) then tl num else num) = ip @ fp"
    using h(2)
  proof
    assume "sg = []"
    then show ?thesis using h(1,3) hd_ip by simp
  next
    assume "\<exists>x. sg = [x] \<and> sign_char x"
    then show ?thesis using h(1) by (auto simp: sign_char_def)
  qed
  have tw0: "takeWhile (\<lambda>c. c \<noteq> 0x2E) (ip @ fp) = ip @ takeWhile (\<lambda>c. c \<noteq> 0x2E) fp"
    using nd by (simp add: takeWhile_append2)
  have "takeWhile (\<lambda>c. c \<noteq> 0x2E) fp = []"
    using h(5) by auto
  with tw0 have tw: "takeWhile (\<lambda>c. c \<noteq> 0x2E) (ip @ fp) = ip" by simp
  have dr: "list_all isdecimal (drop (Suc (length ip)) (ip @ fp))"
    "\<not> (drop (Suc (length ip)) (ip @ fp) = [] \<and> length ip < length (ip @ fp))"
    using h(5) by auto
  show ?thesis
    unfolding py_float_def Let_def body tw using h(3,4) dr by simp
qed

lemma parse_return_12m_sound:
  assumes "parse_return_12m t = Some v"
  shows "\<exists>num. return_occurrence t num \<and> py_float num = Some v"
proof -
  from assms obtain b m c where s: "re_search return_12m_re t = Some (b, m, c)"
    and f: "py_float (group c 1) = Some v"
    by (auto simp: parse_return_12m_def split: if_splits option.splits)
  from search_loop_Some[OF s[unfolded re_search_def]] obtain u rest pv' where
    d: "t = u @ m @ rest" "(pv', rest, c) \<in> set (ms return_12m_re (last_char None u) (m @ rest) Map.empty)"
    by blast
  from d(2) obtain mk sep num ws where
    h: "m @ rest = mk @ sep @ num @ ws @ [0x25] @ rest" "lang marker_re mk" "list_all sep_char sep"
      "lang number_re num" "list_all isspace ws" "c = Map.empty(1 \<mapsto> num)"
    unfolding ms_return_12m_re by blast
  have "t = u @ mk @ sep @ num @ ws @ [0x25] @ rest" using d(1) h(1) by simp
  then have "return_occurrence t num"
    unfolding return_occurrence_def using h(2,3,4,5) by blast
  moreover have "group c 1 = num" using h(6) by (simp add: group_def)
  ultimately show ?thesis using f by auto
qed

lemma parse_return_12m_complete:
  assumes "return_occurrence t num"
  shows "parse_return_12m t \<noteq> None"
proof
  assume n: "parse_return_12m t = None"
  from assms obtain before mk sep ws after where
    h: "t = before @ mk @ sep @ num @ ws @ [0x25] @ after" "lang marker_re mk"
      "list_all sep_char sep" "lang number_re num" "list_all isspace ws"
    unfolding return_occurrence_def by blast
  have ne: "t \<noteq> []" using h(1) by simp
  have mem: "(Some 0x25, after, Map.empty(1 \<mapsto> num)) \<in>
      set (ms return_12m_re (last_char None before) (mk @ sep @ num @ ws @ [0x25] @ after) Map.empty)"
    unfolding ms_return_12m_re using h(2,3,4,5) by blast
  show False
  proof (cases "re_search return_12m_re t")
    case None
    then have "ms return_12m_re (last_char None before) (mk @ sep @ num @ ws @ [0x25] @ after) Map.empty = []"
      unfolding re_search_def search_loop_None using h(1) by blast
    with mem show False by simp
  next
    case (Some r)
    obtain b m c where r: "r = (b, m, c)" by (cases r)
    from Some r n ne have f: "py_float (group c 1) = None"
      by (simp add: parse_return_12m_def)
    from search_loop_Some[OF Some[unfolded re_search_def r]] obtain u rest pv' where
      d: "(pv', rest, c) \<in> set (ms return_12m_re (last_char None u) (m @ rest) Map.empty)"
      by blast
    from d obtain num' where "lang number_re num'" "c = Map.empty(1 \<mapsto> num')"
      unfolding ms_return_12m_re by blast
    then have "py_float (group c 1) \<noteq> None"
      using py_float_number by (simp add: group_def)
    with f show False by simp
  qed
qed

lemmas re_eval = word_boundary_def last_char_def re_search_def group_def chr_is_def
  ascii_digit_def sign_char_def sep_char_def ieq_def isword_def
  risk_score_re_def risk_of_ten_re_def marker_re_def number_re_def return_12m_re_def
  parse_risk_score_def parse_return_12m_def py_float_def decimal_number_def digit_val_def
  py_int_def int_max_str_digits_def

lemma lang_marker_re_hd: "lang marker_re mk \<Longrightarrow> mk \<noteq> [] \<and> hd mk = 0x31"
proof -
  assume "lang marker_re mk"
  then have "lang (ilit (U ''12m'')) mk
      \<or> lang (seqs [ilit (U ''12''), Rep isspace 0 None, ilit (U ''months'')]) mk
      \<or> lang (ilit (U ''1y'')) mk"
    by (simp only: marker_re_def lang.simps)
  then show ?thesis
  proof (elim disjE)
    assume "lang (ilit (U ''12m'')) mk"
    then obtain u v where "mk = u @ v" "lang (Chr (ieq 0x31)) u"
      by (simp add: U_def) blast
    then show ?thesis by (auto simp: ieq_def)
  next
    assume "lang (seqs [ilit (U ''12''), Rep isspace 0 None, ilit (U ''months'')]) mk"
    then obtain u v where "mk = u @ v" "lang (ilit (U ''12'')) u"
      by (simp only: seqs.simps lang.simps(3)) blast
    moreover from this obtain u1 v1 where "u = u1 @ v1" "lang (Chr (ieq 0x31)) u1"
      by (simp add: U_def) blast
    ultimately show ?thesis by (auto simp: ieq_def)
  next
    assume "lang (ilit (U ''1y'')) mk"
    then obtain u v where "mk = u @ v" "lang (Chr (ieq 0x31)) u"
      by (simp add: U_def) blast
    then show ?thesis by (auto simp: ieq_def)
  qed
qed

lemma return_occurrence_marker:
  "return_occurrence t num \<Longrightarrow> \<exists>before mk after. t = before @ mk @ after \<and> lang marker_re mk"
  unfolding return_occurrence_def by blast

lemma last_occurrence_unique:
  assumes "xs @ [a] = p @ a # after" "a \<notin> set xs"
  shows "p = xs \<and> after = []"
proof (cases after rule: rev_cases)
  case Nil
  then show ?thesis using assms(1) by simp
next
  case (snoc ys y)
  then have "xs @ [a] = (p @ a # ys) @ [y]" using assms(1) by simp
  then have "xs = p @ a # ys" by (simp only: append1_eq_conv)
  then show ?thesis using assms(2) by simp
qed

lemma search_loop_first:
  "search_loop r pv before t = Some (b, m, c) \<Longrightarrow>
     \<exists>u rest pv' es. t = u @ m @ rest \<and> b = before @ u
        \<and> ms r (last_char pv u) (m @ rest) Map.empty = (pv', rest, c) # es
        \<and> (\<forall>u' v'. t = u' @ v' \<and> length u' < length u \<longrightarrow>
              ms r (last_char pv u') v' Map.empty = [])"
proof (induction t arbitrary: pv before)
  case Nil
  from Nil obtain pv' t' es where h: "ms r pv [] Map.empty = (pv', t', c) # es"
      "b = before" "m = take (0 - length t') []"
    by (auto split: list.splits)
  then have mem: "(pv', t', c) \<in> set (ms r pv [] Map.empty)" by simp
  from ms_suffix[OF mem] have "t' = []" by simp
  with h have "[] = [] @ m @ t'" "b = before @ []"
    "ms r (last_char pv []) (m @ t') Map.empty = (pv', t', c) # es"
    "\<forall>u' v'. [] = u' @ v' \<and> length u' < length ([]::ustr) \<longrightarrow>
              ms r (last_char pv u') v' Map.empty = []"
    by (simp_all add: last_char_def)
  then show ?case by blast
next
  case (Cons x xs)
  show ?case
  proof (cases "ms r pv (x # xs) Map.empty")
    case Nil
    with Cons.prems have "search_loop r (Some x) (before @ [x]) xs = Some (b, m, c)"
      by simp
    from Cons.IH[OF this] obtain u rest pv' es where u: "xs = u @ m @ rest" "b = (before @ [x]) @ u"
      "ms r (last_char (Some x) u) (m @ rest) Map.empty = (pv', rest, c) # es"
      "\<forall>u' v'. xs = u' @ v' \<and> length u' < length u \<longrightarrow>
              ms r (last_char (Some x) u') v' Map.empty = []"
      by blast
    have 1: "x # xs = (x # u) @ m @ rest" "b = before @ (x # u)"
      "ms r (last_char pv (x # u)) (m @ rest) Map.empty = (pv', rest, c) # es"
      using u(1,2,3) by (simp_all add: last_char_Cons)
    have 2: "\<forall>u' v'. x # xs = u' @ v' \<and> length u' < length (x # u) \<longrightarrow>
              ms r (last_char pv u') v' Map.empty = []"
    proof (intro allI impI)
      fix u' v' assume a: "x # xs = u' @ v' \<and> length u' < length (x # u)"
      show "ms r (last_char pv u') v' Map.empty = []"
      proof (cases u')
        case Nil
        then show ?thesis using a \<open>ms r pv (x # xs) Map.empty = []\<close> by (simp add: last_char_def)
      next
        case (Cons y u'')
        then have "xs = u'' @ v'" "y = x" "length u'' < length u" using a by simp_all
        then show ?thesis using u(4) Cons by (simp add: last_char_Cons)
      qed
    qed
    from 1 2 show ?thesis by blast
  next
    case (Cons a es)
    obtain pv' t' c' where a: "a = (pv', t', c')" by (cases a)
    with Cons Cons.prems have r: "b = before" "m = take (length (x # xs) - length t') (x # xs)" "c' = c"
      by simp_all
    have mem: "(pv', t', c) \<in> set (ms r pv (x # xs) Map.empty)"
      using Cons a r by simp
    from ms_suffix[OF mem] obtain w where w: "x # xs = w @ t'" by blast
    then have "m = w" using r(2) by (metis append_eq_conv_conj length_append add_diff_cancel_right')
    then have "x # xs = [] @ m @ t'" "b = before @ []" using w r by simp_all
    moreover have "ms r (last_char pv []) (m @ t') Map.empty = (pv', t', c) # es"
      using Cons a r w \<open>m = w\<close> by (simp add: last_char_def)
    moreover have "\<forall>u' v'. x # xs = u' @ v' \<and> length u' < length ([]::ustr) \<longrightarrow>
              ms r (last_char pv u') v' Map.empty = []" by simp
    ultimately show ?thesis by blast
  qed
qed

lemma concat_Cons_ex: "concat xss = e # es \<Longrightarrow> \<exists>xs \<in> set xss. \<exists>es'. xs = e # es'"
proof (induction xss)
  case Nil
  then show ?case by simp
next
  case (Cons xs xss)
  then show ?case by (cases xs) auto
qed

lemma concat_rev_prefixes:
  "concat (map g (rev (prefixes tw))) = e # es \<Longrightarrow>
     \<exists>w es'. prefix w tw \<and> g w = e # es'
        \<and> (\<forall>p. prefix p tw \<and> length w < length p \<longrightarrow> g p = [])"
proof (induction tw rule: rev_induct)
  case Nil
  then have "g [] = e # es" by simp
  then show ?case by auto
next
  case (snoc y ys)
  show ?case
  proof (cases "g (ys @ [y])")
    case Nil
    with snoc.prems have "concat (map g (rev (prefixes ys))) = e # es" by simp
    from snoc.IH[OF this] obtain w es' where w: "prefix w ys" "g w = e # es'"
      "\<forall>p. prefix p ys \<and> length w < length p \<longrightarrow> g p = []" by blast
    have "g p = []" if "prefix p (ys @ [y])" "length w < length p" for p
    proof (cases "p = ys @ [y]")
      case True
      then show ?thesis using Nil by simp
    next
      case False
      with that(1) have "prefix p ys" by (simp add: prefix_snoc)
      then show ?thesis using w(3) that(2) by blast
    qed
    moreover have "prefix w (ys @ [y])" using w(1) by (simp add: prefix_snoc)
    ultimately show ?thesis using w(2) by blast
  next
    case (Cons a as)
    with snoc.prems have "a = e" by simp
    have "g p = []" if "prefix p (ys @ [y])" "length (ys @ [y]) < length p" for p
      using that by (auto dest: prefix_length_le)
    then show ?thesis using Cons \<open>a = e\<close> by blast
  qed
qed

lemma ms_Seq_star:
  "ms (Seq (Rep p 0 None) r) pv t c =
     concat (map (\<lambda>w. ms r (last_char pv w) (drop (length w) t) c) (rev (prefixes (takeWhile p t))))"
  by (simp add: comp_def)

lemma ms_number_percent:
  "(pv', t', c') \<in> set (ms (Seq (Grp 1 number_re) (Seq (Rep isspace 0 None) (Chr (chr_is 0x25)))) pv t c) \<longleftrightarrow>
     (\<exists>num ws. t = num @ ws @ [0x25] @ t' \<and> lang number_re num \<and> list_all isspace ws
        \<and> c' = c(1 \<mapsto> num) \<and> pv' = Some 0x25)"
proof
  assume "(pv', t', c') \<in> set (ms (Seq (Grp 1 number_re) (Seq (Rep isspace 0 None) (Chr (chr_is 0x25)))) pv t c)"
  then obtain pv3 t3 c3 pv4 t4 c4 where
    3: "(pv3, t3, c3) \<in> set (ms (Grp 1 number_re) pv t c)" and
    4: "(pv4, t4, c4) \<in> set (ms (Rep isspace 0 None) pv3 t3 c3)" and
    5: "(pv', t', c') \<in> set (ms (Chr (chr_is 0x25)) pv4 t4 c4)"
    unfolding mem_Seq by blast
  from 3 obtain c3' where g: "(pv3, t3, c3') \<in> set (ms number_re pv t c)"
    "c3 = c3'(1 \<mapsto> take (length t - length t3) t)"
    unfolding mem_Grp by blast
  from g(1) obtain num where num: "t = num @ t3" "lang number_re num" "c3' = c"
    unfolding ms_plain[OF plain_number_re] by blast
  have c3: "c3 = c(1 \<mapsto> num)" using g(2) num(1,3) by simp
  from 4 obtain ws where ws: "t3 = ws @ t4" "list_all isspace ws" "c4 = c3"
    unfolding mem_Rep lang_Rep_star by blast
  from 5 obtain w where w: "t4 = w @ t'" "lang (Chr (chr_is 0x25)) w" "pv' = last_char pv4 w"
    "c' = c4"
    unfolding ms_Chr_lang by blast
  from w(2) have w1: "w = [0x25]" by (auto simp: chr_is_def)
  have "t = num @ ws @ [0x25] @ t'"
    using num(1) ws(1) w(1) w1 by simp
  moreover have "c' = c(1 \<mapsto> num)" using w(4) ws(3) c3 by simp
  moreover have "pv' = Some 0x25" using w(3) w1 by (simp add: last_char_def)
  ultimately show "\<exists>num ws. t = num @ ws @ [0x25] @ t' \<and> lang number_re num \<and> list_all isspace ws
        \<and> c' = c(1 \<mapsto> num) \<and> pv' = Some 0x25"
    using num(2) ws(2) by blast
next
  assume "\<exists>num ws. t = num @ ws @ [0x25] @ t' \<and> lang number_re num \<and> list_all isspace ws
        \<and> c' = c(1 \<mapsto> num) \<and> pv' = Some 0x25"
  then obtain num ws where h: "t = num @ ws @ [0x25] @ t'"
    "lang number_re num" "list_all isspace ws" "c' = c(1 \<mapsto> num)" "pv' = Some 0x25"
    by blast
  let ?t3 = "ws @ [0x25] @ t'"
  let ?t4 = "[0x25] @ t'"
  let ?pv3 = "last_char pv num"
  let ?pv4 = "last_char ?pv3 ws"
  have "(?pv3, ?t3, c) \<in> set (ms number_re pv t c)"
    unfolding ms_plain[OF plain_number_re] using h(1,2) by blast
  moreover have "take (length t - length ?t3) t = num" using h(1) by simp
  ultimately have 3: "(?pv3, ?t3, c(1 \<mapsto> num)) \<in> set (ms (Grp 1 number_re) pv t c)"
    unfolding mem_Grp by metis
  have 4: "(?pv4, ?t4, c(1 \<mapsto> num)) \<in> set (ms (Rep isspace 0 None) ?pv3 ?t3 (c(1 \<mapsto> num)))"
    unfolding mem_Rep lang_Rep_star using h(3) by blast
  have "lang (Chr (chr_is 0x25)) [0x25]" by (simp add: chr_is_def)
  moreover have "Some 0x25 = last_char ?pv4 [0x25]" by (simp add: last_char_def)
  ultimately have 5: "(Some 0x25, t', c(1 \<mapsto> num)) \<in> set (ms (Chr (chr_is 0x25)) ?pv4 ?t4 (c(1 \<mapsto> num)))"
    unfolding ms_Chr_lang by blast
  show "(pv', t', c') \<in> set (ms (Seq (Grp 1 number_re) (Seq (Rep isspace 0 None) (Chr (chr_is 0x25)))) pv t c)"
    unfolding mem_Seq h(4,5)
    using 3 4 5 by blast
qed

lemma decimal_blocks_range: "list_all (\<lambda>b. b = 0x30 \<or> 0x660 \<le> b) decimal_blocks"
  by (simp add: decimal_blocks_def)

lemma isdecimal_range: "isdecimal c \<Longrightarrow> c \<le> 0x39 \<or> 0x660 \<le> c"
proof -
  assume "isdecimal c"
  then obtain b where "find (\<lambda>b. b \<le> c \<and> c < b + 10) decimal_blocks = Some b"
    by (auto simp: isdecimal_def decimal_value_def split: option.splits)
  then have "b \<in> set decimal_blocks" "b \<le> c" "c < b + 10"
    by (auto simp: find_Some_iff)
  with decimal_blocks_range show ?thesis by (auto simp: list_all_iff)
qed

lemma isspace_not_number_char:
  "isspace c \<Longrightarrow> \<not> sign_char c \<and> \<not> isdecimal c \<and> c \<noteq> 0x2E \<and> c \<noteq> 0x25"
proof -
  assume s: "isspace c"
  from isspace_not_isdigit[OF s] have "\<not> isdecimal c" by (simp add: isdigit_def)
  moreover from isspace_cases[OF s] have "\<not> sign_char c \<and> c \<noteq> 0x2E \<and> c \<noteq> 0x25"
    by (auto simp: sign_char_def)
  ultimately show ?thesis by simp
qed

lemma ieq_lower_not_number_char:
  assumes "0x61 \<le> p" "p \<le> 0x7A" "ieq p c"
  shows "\<not> sign_char c \<and> \<not> isdecimal c"
proof -
  from assms have "c = p \<or> c + 0x20 = p \<or> c = 0x130 \<or> c = 0x131 \<or> c = 0x17F \<or> c = 0x212A"
    by (auto simp: ieq_def Let_def split: if_splits)
  with assms(1,2) have r: "0x41 \<le> c" "c \<le> 0x17F \<or> c = 0x212A" by auto
  have "\<not> isdecimal 0x212A" by (simp add: char_eval)
  with r isdecimal_range[of c] have "\<not> isdecimal c" by auto
  moreover from r(1) have "\<not> sign_char c" by (simp add: sign_char_def)
  ultimately show ?thesis by simp
qed

lemma lang_ilit_lower:
  "list_all (\<lambda>p. 0x61 \<le> p \<and> p \<le> 0x7A) ps \<Longrightarrow> lang (ilit ps) w \<Longrightarrow>
     list_all (\<lambda>c. \<not> sign_char c \<and> \<not> isdecimal c) w"
proof (induction ps arbitrary: w rule: ilit.induct)
  case 1
  then show ?case by simp
next
  case (2 p)
  then obtain x where "w = [x]" "ieq p x" by auto
  with 2(1) ieq_lower_not_number_char[of p x] show ?case by simp
next
  case (3 p q ps)
  from 3(3) obtain x v where w: "w = x # v" "ieq p x" "lang (ilit (q # ps)) v" by auto
  from 3(2) have "0x61 \<le> p" "p \<le> 0x7A" "list_all (\<lambda>p. 0x61 \<le> p \<and> p \<le> 0x7A) (q # ps)" by simp_all
  with 3(1)[OF _ w(3)] ieq_lower_not_number_char[of p x] w show ?case by simp
qed

lemma lang_marker_re_shape:
  "lang marker_re mk \<Longrightarrow>
     \<exists>a b r. mk = a # b # r \<and> list_all (\<lambda>c. \<not> sign_char c \<and> \<not> isdecimal c) r"
proof -
  assume "lang marker_re mk"
  then have "lang (ilit (U ''12m'')) mk
      \<or> lang (seqs [ilit (U ''12''), Rep isspace 0 None, ilit (U ''months'')]) mk
      \<or> lang (ilit (U ''1y'')) mk"
    by (simp only: marker_re_def lang.simps)
  then show ?thesis
  proof (elim disjE)
    assume "lang (ilit (U ''12m'')) mk"
    then obtain a b c where "mk = [a, b, c]" "ieq 0x6D c"
      by (auto simp: U_def)
    with ieq_lower_not_number_char[of "0x6D" c] show ?thesis by simp
  next
    assume "lang (seqs [ilit (U ''12''), Rep isspace 0 None, ilit (U ''months'')]) mk"
    then obtain u v where 1: "mk = u @ v" "lang (ilit (U ''12'')) u"
      "lang (Seq (Rep isspace 0 None) (ilit (U ''months''))) v"
      by (simp only: seqs.simps lang.simps(3)) blast
    from lang_SeqD[OF 1(3)] obtain ws m where 2: "v = ws @ m" "lang (Rep isspace 0 None) ws"
      "lang (ilit (U ''months'')) m" by blast
    from 1(2) obtain a b where u: "u = [a, b]" by (auto simp: U_def)
    have "list_all (\<lambda>p. 0x61 \<le> p \<and> p \<le> 0x7A) (U ''months'')" by (simp add: U_def)
    from lang_ilit_lower[OF this 2(3)] have m: "list_all (\<lambda>c. \<not> sign_char c \<and> \<not> isdecimal c) m" .
    from 2(2) have "list_all isspace ws" by simp
    then have "list_all (\<lambda>c. \<not> sign_char c \<and> \<not> isdecimal c) ws"
      using isspace_not_number_char by (simp add: list_all_iff)
    with m have "list_all (\<lambda>c. \<not> sign_char c \<and> \<not> isdecimal c) (ws @ m)" by simp
    then show ?thesis using 1(1) 2(1) u by simp
  next
    assume "lang (ilit (U ''1y'')) mk"
    then obtain a b where "mk = [a, b]" by (auto simp: U_def)
    then show ?thesis by simp
  qed
qed

lemma lang_number_re_hd: "lang number_re num \<Longrightarrow> num \<noteq> [] \<and> (sign_char (hd num) \<or> isdecimal (hd num))"
proof -
  assume "lang number_re num"
  from lang_number_reD[OF this] obtain sg ip fp where h: "num = sg @ ip @ fp"
    "sg = [] \<or> (\<exists>x. sg = [x] \<and> sign_char x)" "ip \<noteq> []" "list_all isdecimal ip"
    by blast
  from h(3,4) have "isdecimal (hd ip)" by (cases ip) simp_all
  with h(1,2,3) show ?thesis by auto
qed

lemma lang_number_re_tl:
  "lang number_re num \<Longrightarrow> list_all (\<lambda>c. isdecimal c \<or> c = 0x2E) (tl num)"
proof -
  assume "lang number_re num"
  from lang_number_reD[OF this] obtain sg ip fp where h: "num = sg @ ip @ fp"
    "sg = [] \<or> (\<exists>x. sg = [x] \<and> sign_char x)" "ip \<noteq> []" "list_all isdecimal ip"
    "fp = [] \<or> (\<exists>fd. fp = 0x2E # fd \<and> fd \<noteq> [] \<and> list_all isdecimal fd)"
    by blast
  from h(5) have fp: "list_all (\<lambda>c. isdecimal c \<or> c = 0x2E) fp" by (auto simp: list_all_iff)
  from h(4) have ip: "list_all (\<lambda>c. isdecimal c \<or> c = 0x2E) ip" by (simp add: list_all_iff)
  then have "list_all (\<lambda>c. isdecimal c \<or> c = 0x2E) (tl ip)" by (cases ip) simp_all
  with h(1,2,3) ip fp show ?thesis by auto
qed

text \<open>At a given start, the number followed by whitespace and the percent sign is unique.\<close>

lemma number_percent_unique:
  assumes "num @ ws @ [0x25] @ a = num' @ ws' @ [0x25] @ a'"
    "lang number_re num" "lang number_re num'" "list_all isspace ws" "list_all isspace ws'"
  shows "num = num'"
proof -
  have step: "length n2 \<le> length n1"
    if e: "n1 @ w1 @ [0x25] @ a1 = n2 @ w2 @ [0x25] @ a2" and l: "lang number_re n1" "lang number_re n2"
      and s: "list_all isspace w1" for n1 n2 w1 w2 a1 a2 :: ustr
  proof (rule ccontr)
    assume "\<not> length n2 \<le> length n1"
    then have lt: "length n1 < length n2" by simp
    from iffD1[OF append_eq_append_conv2, OF e] obtain us where "(n1 = n2 @ us \<and> us @ w1 @ [0x25] @ a1 = w2 @ [0x25] @ a2)
        \<or> (n1 @ us = n2 \<and> w1 @ [0x25] @ a1 = us @ w2 @ [0x25] @ a2)"
      by blast
    with lt obtain d where d: "n2 = n1 @ d" "w1 @ [0x25] @ a1 = d @ w2 @ [0x25] @ a2"
      by auto
    have dne: "d \<noteq> []" using d(1) lt by auto
    have "hd d = hd (w1 @ [0x25] @ a1)" unfolding d(2) using dne by simp
    then have hdd: "isspace (hd d) \<or> hd d = 0x25" using s by (cases w1) simp_all
    from lang_number_re_hd[OF l(1)] have "n1 \<noteq> []" by simp
    then have "hd d \<in> set (tl n2)" using d(1) dne by (cases n1) simp_all
    with lang_number_re_tl[OF l(2)] have "isdecimal (hd d) \<or> hd d = 0x2E" by (simp add: list_all_iff)
    moreover have "\<not> isdecimal 0x25" by (simp add: char_eval)
    ultimately show False using hdd isspace_not_number_char[of "hd d"] by auto
  qed
  from step[OF assms(1) assms(2,3) assms(4)] step[OF assms(1)[symmetric] assms(3,2) assms(5)]
  have "length num = length num'" by simp
  with assms(1) show ?thesis by simp
qed

lemma ms_return_12m_re_hd:
  assumes "ms return_12m_re pv s c = (pv', s', c') # es"
  shows "\<exists>mk sep num ws. s = mk @ sep @ num @ ws @ [0x25] @ s'
      \<and> lang marker_re mk \<and> list_all sep_char sep \<and> lang number_re num
      \<and> list_all isspace ws \<and> c' = c(1 \<mapsto> num)
      \<and> (\<forall>mk2 sep2 num2 ws2 a2.
            s = mk2 @ sep2 @ num2 @ ws2 @ [0x25] @ a2 \<and> lang marker_re mk2
            \<and> list_all sep_char sep2 \<and> lang number_re num2 \<and> list_all isspace ws2
            \<longrightarrow> length (mk2 @ sep2) \<le> length (mk @ sep))"
proof -
  let ?T = "Seq (Grp 1 number_re) (Seq (Rep isspace 0 None) (Chr (chr_is 0x25)))"
  let ?R = "Seq (Rep sep_char 0 None) ?T"
  have re: "return_12m_re = Seq marker_re ?R" by (simp add: return_12m_re_def)
  have sq: "ms (Seq marker_re ?R) pv s c
      = concat (map (\<lambda>(pv1, t1, c1). ms ?R pv1 t1 c1) (ms marker_re pv s c))"
    by (rule ms.simps(3))
  have "concat (map (\<lambda>(pv1, t1, c1). ms ?R pv1 t1 c1) (ms marker_re pv s c))
      = (pv', s', c') # es"
    unfolding sq[symmetric] re[symmetric] by (rule assms)
  from concat_Cons_ex[OF this] obtain x es1 where x: "x \<in> set (ms marker_re pv s c)"
    "(case x of (pv1, t1, c1) \<Rightarrow> ms ?R pv1 t1 c1) = (pv', s', c') # es1"
    by auto
  obtain pv1 s1 c1 where x3: "x = (pv1, s1, c1)" by (cases x)
  from x(1) have "(pv1, s1, c1) \<in> set (ms marker_re pv s c)" unfolding x3 .
  then obtain mk where mk: "s = mk @ s1" "lang marker_re mk" "c1 = c"
    unfolding ms_plain[OF plain_marker_re] by blast
  from x(2) have "ms ?R pv1 s1 c = (pv', s', c') # es1"
    unfolding x3 prod.case mk(3) .
  then have "concat (map (\<lambda>w. ms ?T (last_char pv1 w) (drop (length w) s1) c)
      (rev (prefixes (takeWhile sep_char s1)))) = (pv', s', c') # es1"
    unfolding ms_Seq_star .
  from concat_rev_prefixes[OF this] obtain w es2 where
    w: "prefix w (takeWhile sep_char s1)"
       "ms ?T (last_char pv1 w) (drop (length w) s1) c = (pv', s', c') # es2"
       "\<forall>p. prefix p (takeWhile sep_char s1) \<and> length w < length p \<longrightarrow>
            ms ?T (last_char pv1 p) (drop (length p) s1) c = []"
    by blast
  from w(1) have pw: "prefix w s1" "list_all sep_char w" by (simp_all add: prefix_takeWhile_iff)
  then obtain r0 where r0: "s1 = w @ r0" by (auto simp: prefix_def)
  then have dr: "drop (length w) s1 = r0" by simp
  have w2: "ms ?T (last_char pv1 w) r0 c = (pv', s', c') # es2" using w(2) unfolding dr .
  have "(pv', s', c') \<in> set ((pv', s', c') # es2)" by simp
  then have "(pv', s', c') \<in> set (ms ?T (last_char pv1 w) r0 c)" unfolding w2 .
  then obtain num ws where n: "r0 = num @ ws @ [0x25] @ s'" "lang number_re num"
      "list_all isspace ws" "c' = c(1 \<mapsto> num)"
    unfolding ms_number_percent by blast
  have dec: "s = mk @ w @ num @ ws @ [0x25] @ s'" using mk(1) r0 n(1) by simp
  have mx: "length (mk2 @ sep2) \<le> length (mk @ w)"
    if h: "s = mk2 @ sep2 @ num2 @ ws2 @ [0x25] @ a2" "lang marker_re mk2"
      "list_all sep_char sep2" "lang number_re num2" "list_all isspace ws2"
    for mk2 sep2 num2 ws2 a2
  proof (rule ccontr)
    assume "\<not> length (mk2 @ sep2) \<le> length (mk @ w)"
    then have lt: "length (mk @ w) < length (mk2 @ sep2)" by simp
    let ?r2 = "num2 @ ws2 @ [0x25] @ a2"
    have e: "(mk @ w) @ r0 = (mk2 @ sep2) @ ?r2" using mk(1) r0 h(1) by simp
    from iffD1[OF append_eq_append_conv2, OF e] obtain us where
      alt: "(mk @ w = (mk2 @ sep2) @ us \<and> us @ r0 = ?r2)
        \<or> ((mk @ w) @ us = mk2 @ sep2 \<and> r0 = us @ ?r2)"
      by blast
    have "\<not> (mk @ w = (mk2 @ sep2) @ us)"
    proof
      assume "mk @ w = (mk2 @ sep2) @ us"
      then have "length (mk @ w) = length ((mk2 @ sep2) @ us)" by (rule arg_cong)
      with lt show False by simp
    qed
    with alt have B: "(mk @ w) @ us = mk2 @ sep2" "r0 = us @ ?r2" by blast+
    define d where "d = us"
    have d: "mk2 @ sep2 = (mk @ w) @ d" unfolding d_def by (rule B(1)[symmetric])
    have r0d: "r0 = d @ ?r2" unfolding d_def by (rule B(2))
    have dne: "d \<noteq> []"
    proof
      assume "d = []"
      with d have "mk2 @ sep2 = mk @ w" by simp
      then have "length (mk2 @ sep2) = length (mk @ w)" by (rule arg_cong)
      with lt show False by simp
    qed
    show False
    proof (cases "length mk2 \<le> length (mk @ w)")
      case True
      from iffD1[OF append_eq_append_conv2, OF d] obtain vs where
        alt2: "(mk2 = (mk @ w) @ vs \<and> vs @ sep2 = d) \<or> (mk2 @ vs = mk @ w \<and> sep2 = vs @ d)"
        by blast
      have "\<exists>vs. sep2 = vs @ d"
      proof (rule disjE[OF alt2])
        assume a: "mk2 = (mk @ w) @ vs \<and> vs @ sep2 = d"
        then have "length mk2 = length (mk @ w) + length vs" by simp
        with True have "vs = []" by simp
        with a have "sep2 = [] @ d" by simp
        then show ?thesis by blast
      next
        assume "mk2 @ vs = mk @ w \<and> sep2 = vs @ d"
        then show ?thesis by blast
      qed
      then obtain vs' where "sep2 = vs' @ d" by blast
      then have "list_all sep_char (vs' @ d)" using h(3) by simp
      then have sd0: "list_all sep_char d" by simp
      have sd: "list_all sep_char d" by (rule sd0)
      have "s1 = (w @ d) @ ?r2" using r0 r0d by simp
      then have "prefix (w @ d) s1" unfolding prefix_def by blast
      then have "prefix (w @ d) (takeWhile sep_char s1)"
        unfolding prefix_takeWhile_iff using pw(2) sd by simp
      moreover have "length w < length (w @ d)" using dne by simp
      ultimately have z: "ms ?T (last_char pv1 (w @ d)) (drop (length (w @ d)) s1) c = []"
        using w(3) by blast
      have dr2: "drop (length (w @ d)) s1 = ?r2" using r0 r0d by simp
      have emp: "ms ?T (last_char pv1 (w @ d)) ?r2 c = []" using z unfolding dr2 .
      have mem: "(Some 0x25, a2, c(1 \<mapsto> num2)) \<in> set (ms ?T (last_char pv1 (w @ d)) ?r2 c)"
        unfolding ms_number_percent using h(4,5) by blast
      from mem show False unfolding emp by simp
    next
      case False
      then have l2: "length (mk @ w) < length mk2" by simp
      from lang_marker_re_shape[OF h(2)] obtain a b r where
        s2: "mk2 = a # b # r" "list_all (\<lambda>c. \<not> sign_char c \<and> \<not> isdecimal c) r" by blast
      from lang_marker_re_shape[OF mk(2)] obtain a' b' r' where s1': "mk = a' # b' # r'" by blast
      from iffD1[OF append_eq_append_conv2, OF d] obtain vs where
        alt3: "(mk2 = (mk @ w) @ vs \<and> vs @ sep2 = d) \<or> (mk2 @ vs = mk @ w \<and> sep2 = vs @ d)"
        by blast
      have "\<not> (mk2 @ vs = mk @ w)"
      proof
        assume "mk2 @ vs = mk @ w"
        then have "length (mk2 @ vs) = length (mk @ w)" by (rule arg_cong)
        with l2 show False by simp
      qed
      with alt3 have C: "mk2 = (mk @ w) @ vs" "vs @ sep2 = d" by blast+
      define d1 where "d1 = vs"
      have d1: "mk2 = (mk @ w) @ d1" unfolding d1_def by (rule C(1))
      have dd1: "d = d1 @ sep2" unfolding d1_def by (rule C(2)[symmetric])
      have d1ne: "d1 \<noteq> []"
      proof
        assume "d1 = []"
        with d1 have "mk2 = mk @ w" by simp
        then have "length mk2 = length (mk @ w)" by (rule arg_cong)
        with l2 show False by simp
      qed
      have hd1: "hd d1 = hd d" unfolding dd1 using d1ne by simp
      have "r = r' @ w @ d1" using d1 s2(1) s1' by simp
      then have "hd d1 \<in> set r" using d1ne by simp
      then have nn: "\<not> sign_char (hd d1) \<and> \<not> isdecimal (hd d1)"
        using s2(2) by (simp add: list_all_iff)
      have "hd d = hd r0" using r0d dne by simp
      moreover have "hd r0 = hd num" using n(1) lang_number_re_hd[OF n(2)] by simp
      ultimately show False using nn lang_number_re_hd[OF n(2)] hd1 by simp
    qed
  qed
  have mx': "\<forall>mk2 sep2 num2 ws2 a2.
            s = mk2 @ sep2 @ num2 @ ws2 @ [0x25] @ a2 \<and> lang marker_re mk2
            \<and> list_all sep_char sep2 \<and> lang number_re num2 \<and> list_all isspace ws2
            \<longrightarrow> length (mk2 @ sep2) \<le> length (mk @ w)"
    using mx by blast
  from dec mk(2) pw(2) n(2,3,4) mx' show ?thesis by blast
qed

lemma return_occurrence_at:
  "return_occurrence t num \<longleftrightarrow> (\<exists>before lead. return_at t before lead num)"
proof
  assume "return_occurrence t num"
  then obtain before mk sep ws after where
    h: "t = before @ mk @ sep @ num @ ws @ [0x25] @ after" "lang marker_re mk"
      "list_all sep_char sep" "lang number_re num" "list_all isspace ws"
    unfolding return_occurrence_def by blast
  have "t = before @ (mk @ sep) @ num @ ws @ [0x25] @ after" using h(1) by simp
  then have "return_at t before (mk @ sep) num"
    unfolding return_at_def using h(2,3,4,5) by blast
  then show "\<exists>before lead. return_at t before lead num" by blast
next
  assume "\<exists>before lead. return_at t before lead num"
  then obtain before lead mk sep ws after where
    h: "t = before @ lead @ num @ ws @ [0x25] @ after" "lead = mk @ sep" "lang marker_re mk"
      "list_all sep_char sep" "lang number_re num" "list_all isspace ws"
    unfolding return_at_def by blast
  have "t = before @ mk @ sep @ num @ ws @ [0x25] @ after" using h(1,2) by simp
  then show "return_occurrence t num"
    unfolding return_occurrence_def using h(3,4,5,6) by blast
qed

lemma parse_return_12m_first_sound:
  assumes "parse_return_12m t = Some v"
  shows "\<exists>before lead num. first_return t before lead num \<and> py_float num = Some v"
proof -
  from assms obtain b m c where s: "re_search return_12m_re t = Some (b, m, c)"
    and f: "py_float (group c 1) = Some v"
    by (auto simp: parse_return_12m_def split: if_splits option.splits)
  from search_loop_first[OF s[unfolded re_search_def]] obtain u rest pv' es where
    d: "t = u @ m @ rest"
       "ms return_12m_re (last_char None u) (m @ rest) Map.empty = (pv', rest, c) # es"
       "\<forall>u' v'. t = u' @ v' \<and> length u' < length u \<longrightarrow>
            ms return_12m_re (last_char None u') v' Map.empty = []"
    by blast
  from ms_return_12m_re_hd[OF d(2)] obtain mk sep num ws where
    h: "m @ rest = mk @ sep @ num @ ws @ [0x25] @ rest" "lang marker_re mk"
       "list_all sep_char sep" "lang number_re num" "list_all isspace ws"
       "c = Map.empty(1 \<mapsto> num)"
       "\<forall>mk2 sep2 num2 ws2 a2.
            m @ rest = mk2 @ sep2 @ num2 @ ws2 @ [0x25] @ a2 \<and> lang marker_re mk2
            \<and> list_all sep_char sep2 \<and> lang number_re num2 \<and> list_all isspace ws2
            \<longrightarrow> length (mk2 @ sep2) \<le> length (mk @ sep)"
    by blast
  have t: "t = u @ (mk @ sep) @ num @ ws @ [0x25] @ rest" using d(1) h(1) by simp
  then have at: "return_at t u (mk @ sep) num"
    unfolding return_at_def using h(2,3,4,5) by blast
  have least: "length u < length b' \<or> (length u = length b' \<and> length l' \<le> length (mk @ sep))"
    if r: "return_at t b' l' n'" for b' l' n'
  proof -
    from r obtain mk' sep' ws' a' where
      h': "t = b' @ l' @ n' @ ws' @ [0x25] @ a'" "l' = mk' @ sep'" "lang marker_re mk'"
        "list_all sep_char sep'" "lang number_re n'" "list_all isspace ws'"
      unfolding return_at_def by blast
    have t': "t = b' @ (mk' @ sep' @ n' @ ws' @ [0x25] @ a')" using h'(1,2) by simp
    have mem: "(Some 0x25, a', Map.empty(1 \<mapsto> n')) \<in>
        set (ms return_12m_re (last_char None b') (mk' @ sep' @ n' @ ws' @ [0x25] @ a') Map.empty)"
      unfolding ms_return_12m_re using h'(3,4,5,6) by blast
    have nlt: "\<not> length b' < length u"
    proof
      assume "length b' < length u"
      with d(3) t' have "ms return_12m_re (last_char None b') (mk' @ sep' @ n' @ ws' @ [0x25] @ a') Map.empty = []"
        by blast
      with mem show False by simp
    qed
    show ?thesis
    proof (cases "length u = length b'")
      case True
      have "u @ (m @ rest) = b' @ (mk' @ sep' @ n' @ ws' @ [0x25] @ a')"
        using d(1) t' by simp
      with True have "m @ rest = mk' @ sep' @ n' @ ws' @ [0x25] @ a'" by simp
      with h(7) h'(3,4,5,6) have "length (mk' @ sep') \<le> length (mk @ sep)" by blast
      with True h'(2) show ?thesis by simp
    next
      case False
      with nlt show ?thesis by simp
    qed
  qed
  have "first_return t u (mk @ sep) num"
    unfolding first_return_def using at least by blast
  moreover have "group c 1 = num" using h(6) by (simp add: group_def)
  ultimately show ?thesis using f by auto
qed

lemma first_return_unique:
  assumes "first_return t b l n" "first_return t b' l' n'"
  shows "b = b' \<and> l = l' \<and> n = n'"
proof -
  from assms have at: "return_at t b l n" "return_at t b' l' n'"
    unfolding first_return_def by simp_all
  from assms(1) at(2) have 1: "length b < length b' \<or> (length b = length b' \<and> length l' \<le> length l)"
    unfolding first_return_def by blast
  from assms(2) at(1) have 2: "length b' < length b \<or> (length b' = length b \<and> length l \<le> length l')"
    unfolding first_return_def by blast
  from 1 2 have len: "length b = length b'" "length l = length l'" by auto
  from at(1) obtain ws a where h: "t = b @ l @ n @ ws @ [0x25] @ a" "lang number_re n"
      "list_all isspace ws"
    unfolding return_at_def by blast
  from at(2) obtain ws' a' where h': "t = b' @ l' @ n' @ ws' @ [0x25] @ a'" "lang number_re n'"
      "list_all isspace ws'"
    unfolding return_at_def by blast
  from h(1) h'(1) have e: "b @ l @ n @ ws @ [0x25] @ a = b' @ l' @ n' @ ws' @ [0x25] @ a'" by simp
  with len(1) have b: "b = b'" and e2: "l @ n @ ws @ [0x25] @ a = l' @ n' @ ws' @ [0x25] @ a'"
    by simp_all
  from e2 len(2) have l: "l = l'" and e3: "n @ ws @ [0x25] @ a = n' @ ws' @ [0x25] @ a'"
    by simp_all
  from number_percent_unique[OF e3 h(2) h'(2) h(3) h'(3)] b l show ?thesis by simp
qed

lemma lang_SeqI: "lang a u \<Longrightarrow> lang b v \<Longrightarrow> lang (Seq a b) (u @ v)"
  by auto

lemma lang_ilit_self: "list_all (\<lambda>p. ieq p p) ps \<Longrightarrow> lang (ilit ps) ps"
proof (induction ps rule: ilit.induct)
  case 1
  then show ?case by simp
next
  case (2 p)
  then show ?case by simp
next
  case (3 p q ps)
  then have "lang (Chr (ieq p)) [p]" "lang (ilit (q # ps)) (q # ps)" by simp_all
  from lang_SeqI[OF this] show ?case by (simp only: ilit.simps append_Cons append_Nil)
qed

text \<open>
  C7 (as amended). An occurrence of a 12-month return in a text is a marker (\<^verbatim>\<open>12m\<close>,
  \<^verbatim>\<open>12\<close> and \<^verbatim>\<open>months\<close> with optional whitespace between, or \<^verbatim>\<open>1y\<close>, case
  ignored), then characters other than the ASCII digits 0-9 and the signs \<^verbatim>\<open>-\<close> and
  \<^verbatim>\<open>+\<close>, then a signed decimal (an optional sign, decimal digits of any script, optionally
  a point and decimal digits), then optional whitespace and the percent sign. For every
  text input \<^verbatim>\<open>_parse_return_12m\<close> returns the value of the signed decimal of the occurrence
  whose marker starts leftmost and, among the occurrences with that marker start, whose
  number starts last; it returns null exactly when the text has no occurrence, in particular
  when it has no 12-month marker. "Return (12M) 24.6%" gives 24.6 and "12m: -3.5%" gives
  -3.5.
\<close>

theorem parse_return_12m_occurrence:
  "(parse_return_12m t = Some v \<longleftrightarrow>
        (\<exists>before lead num. first_return t before lead num \<and> py_float num = Some v))
   \<and> (parse_return_12m t = None \<longleftrightarrow> (\<forall>before lead num. \<not> return_at t before lead num))
   \<and> ((\<forall>before mk after. t = before @ mk @ after \<longrightarrow> \<not> lang marker_re mk) \<longrightarrow>
        parse_return_12m t = None)
   \<and> parse_return_12m (U ''Return (12M) 24.6%'') = Some (246 / 10)
   \<and> parse_return_12m (U ''12m: -3.5%'') = Some (- 35 / 10)"
proof -
  have a: "parse_return_12m t = Some v \<longleftrightarrow>
        (\<exists>before lead num. first_return t before lead num \<and> py_float num = Some v)"
  proof
    assume "parse_return_12m t = Some v"
    then show "\<exists>before lead num. first_return t before lead num \<and> py_float num = Some v"
      by (rule parse_return_12m_first_sound)
  next
    assume "\<exists>before lead num. first_return t before lead num \<and> py_float num = Some v"
    then obtain b l n where f: "first_return t b l n" "py_float n = Some v" by blast
    then have "return_at t b l n" unfolding first_return_def by simp
    then have "return_occurrence t n" unfolding return_occurrence_at by blast
    from parse_return_12m_complete[OF this] obtain v' where v': "parse_return_12m t = Some v'"
      by blast
    from parse_return_12m_first_sound[OF v'] obtain b' l' n' where
      f': "first_return t b' l' n'" "py_float n' = Some v'" by blast
    from first_return_unique[OF f(1) f'(1)] have "n = n'" by simp
    with f(2) f'(2) have "v' = v" by simp
    with v' show "parse_return_12m t = Some v" by simp
  qed
  have b0: "parse_return_12m t = None \<longleftrightarrow> (\<forall>num. \<not> return_occurrence t num)"
  proof
    assume "parse_return_12m t = None"
    then show "\<forall>num. \<not> return_occurrence t num"
      using parse_return_12m_complete by blast
  next
    assume n: "\<forall>num. \<not> return_occurrence t num"
    show "parse_return_12m t = None"
    proof (cases "parse_return_12m t")
      case None
      then show ?thesis .
    next
      case (Some v)
      from parse_return_12m_sound[OF Some] n show ?thesis by blast
    qed
  qed
  have b: "parse_return_12m t = None \<longleftrightarrow> (\<forall>before lead num. \<not> return_at t before lead num)"
    unfolding b0 return_occurrence_at by blast
  have c: "(\<forall>before mk after. t = before @ mk @ after \<longrightarrow> \<not> lang marker_re mk) \<longrightarrow>
        parse_return_12m t = None"
    using b0 return_occurrence_marker by blast
  have d: "parse_return_12m (U ''Return (12M) 24.6%'') = Some (246 / 10)"
    by (simp add: re_eval char_eval)
  have e: "parse_return_12m (U ''12m: -3.5%'') = Some (- 35 / 10)"
    by (simp add: re_eval char_eval)
  from a b c d e show ?thesis by (intro conjI)
qed

theorem parse_return_12m_occurrence_witness:
  "parse_return_12m (U ''12m 5% 1y 7%'') = Some 5
   \<and> (\<exists>before lead num. return_at (U ''12m 5% 1y 7%'') before lead num \<and> py_float num = Some 5)
   \<and> return_at (U ''12m 5% 1y 7%'') (U ''12m 5% '') (U ''1y '') (U ''7'')
   \<and> py_float (U ''7'') = Some 7
   \<and> parse_return_12m (U ''5%'') = None
   \<and> \<not> (\<exists>before lead num. return_at (U ''5%'') before lead num)"
proof -
  have e: "parse_return_12m (U ''12m 5% 1y 7%'') = Some 5"
    by (simp add: re_eval char_eval)
  then have "\<exists>before lead num. first_return (U ''12m 5% 1y 7%'') before lead num
      \<and> py_float num = Some 5"
    using parse_return_12m_occurrence[of "U ''12m 5% 1y 7%''" 5] by blast
  then have o: "\<exists>before lead num. return_at (U ''12m 5% 1y 7%'') before lead num
      \<and> py_float num = Some 5"
    unfolding first_return_def by blast
  have f1: "U ''12m 5% 1y 7%'' = U ''12m 5% '' @ U ''1y '' @ U ''7'' @ [] @ [0x25] @ []"
    by (simp add: U_def)
  have f2: "U ''1y '' = U ''1y'' @ U '' ''" by (simp add: U_def)
  have "list_all (\<lambda>p. ieq p p) (U ''1y'')" by (simp add: U_def ieq_def)
  then have "lang (ilit (U ''1y'')) (U ''1y'')" by (rule lang_ilit_self)
  then have f3: "lang marker_re (U ''1y'')" unfolding marker_re_def lang.simps(4) by blast
  have f4: "list_all sep_char (U '' '')"
    by (simp add: U_def sep_char_def ascii_digit_def sign_char_def)
  have n1: "lang (Opt (Chr sign_char)) []" by simp
  have n2: "lang (Rep isdecimal 1 None) (U ''7'')" by (simp add: char_eval)
  have n3: "lang (Opt (Seq (Chr (chr_is 0x2E)) (Rep isdecimal 1 None))) []" by simp
  from lang_SeqI[OF n1 lang_SeqI[OF n2 n3]] have f5: "lang number_re (U ''7'')"
    by (simp only: number_re_def seqs.simps append_Nil append_Nil2)
  have f6: "list_all isspace ([]::ustr)" by simp
  from f1 f2 f3 f4 f5 f6 have r: "return_at (U ''12m 5% 1y 7%'') (U ''12m 5% '') (U ''1y '') (U ''7'')"
    unfolding return_at_def by blast
  have v7: "py_float (U ''7'') = Some 7" by (simp add: re_eval char_eval)
  have nm: "\<forall>before mk after. U ''5%'' = before @ mk @ after \<longrightarrow> \<not> lang marker_re mk"
  proof (intro allI impI notI)
    fix before mk after
    assume t: "U ''5%'' = before @ mk @ after" and "lang marker_re mk"
    from lang_marker_re_hd[OF this(2)] have "mk \<noteq> []" "hd mk = 0x31" by simp_all
    then have "0x31 \<in> set mk" by (metis hd_in_set)
    then have "0x31 \<in> set (U ''5%'')" unfolding t by simp
    then show False by (simp add: U_def)
  qed
  then have n: "parse_return_12m (U ''5%'') = None"
    using parse_return_12m_occurrence[of "U ''5%''" 0] by blast
  then have "\<not> (\<exists>before lead num. return_at (U ''5%'') before lead num)"
    using parse_return_12m_occurrence[of "U ''5%''" 0] by blast
  with e o r v7 n show ?thesis by blast
qed

text \<open>
  In "12m 5 %" a space stands between the number and the percent sign: no signed decimal
  is immediately followed by the percent sign, yet the result is 5.
\<close>

theorem parse_return_12m_space_counterexample:
  "parse_return_12m (U ''12m 5 %'') = Some 5
   \<and> \<not> (\<exists>num. strict_return_occurrence (U ''12m 5 %'') num)"
proof -
  have v: "parse_return_12m (U ''12m 5 %'') = Some 5"
    by (simp add: re_eval char_eval)
  have "\<not> strict_return_occurrence (U ''12m 5 %'') num" for num
  proof
    assume "strict_return_occurrence (U ''12m 5 %'') num"
    then obtain before mk sep after where
      h: "U ''12m 5 %'' = before @ mk @ sep @ num @ [0x25] @ after" "lang number_re num"
      unfolding strict_return_occurrence_def by blast
    have e1: "U ''12m 5 %'' = U ''12m 5 '' @ [0x25]"
      by (simp add: U_def)
    have e2: "(before @ mk @ sep @ num) @ 0x25 # after = before @ mk @ sep @ num @ [0x25] @ after"
      by simp
    have e3: "U ''12m 5 '' @ [0x25] = (before @ mk @ sep @ num) @ 0x25 # after"
      unfolding e2 e1[symmetric] by (rule h(1))
    have nm: "0x25 \<notin> set (U ''12m 5 '')" by (simp add: U_def)
    have p: "before @ mk @ sep @ num = U ''12m 5 ''"
      using last_occurrence_unique[OF e3 nm] by simp
    from lang_number_re_last[OF h(2)] have l: "num \<noteq> []" "isdecimal (last num)" by simp_all
    have "last (before @ mk @ sep @ num) = last num" using l(1) by simp
    moreover have "last (U ''12m 5 '') = 0x20" by (simp add: U_def)
    ultimately have "last num = 0x20" unfolding p by simp
    moreover have "\<not> isdecimal 0x20" by (simp add: char_eval)
    ultimately show False using l(2) by simp
  qed
  with v show ?thesis by blast
qed

section \<open>The statistics of an investor card\<close>

lemma stats_keys_distinct: "U ''return_12m'' \<noteq> U ''risk_score''"
  by (simp add: U_def)

text \<open>
  C5. For every input text, \<^verbatim>\<open>_build_stats\<close> returns null if and only if both
  \<^verbatim>\<open>_parse_return_12m\<close> and \<^verbatim>\<open>_parse_risk_score\<close> return null; otherwise it returns a
  mapping whose keys are exactly those among \<open>return_12m\<close> and \<open>risk_score\<close> whose
  parser returned a value, holding these values. It never returns an empty mapping; the
  empty text gives null.
\<close>

theorem build_stats_keys:
  "(build_stats t = None \<longleftrightarrow> parse_return_12m t = None \<and> parse_risk_score t = None)
   \<and> (\<forall>d. build_stats t = Some d \<longrightarrow>
         d \<noteq> []
         \<and> dict_keys d =
             (case parse_return_12m t of None \<Rightarrow> [] | Some r \<Rightarrow> [U ''return_12m''])
             @ (case parse_risk_score t of None \<Rightarrow> [] | Some k \<Rightarrow> [U ''risk_score''])
         \<and> map_of d (U ''return_12m'') = map_option VFloat (parse_return_12m t)
         \<and> map_of d (U ''risk_score'') = map_option VInt (parse_risk_score t))
   \<and> build_stats [] = None"
proof -
  have e: "build_stats [] = None"
    by (simp add: build_stats_def parse_risk_score_def parse_return_12m_def)
  show ?thesis
    using stats_keys_distinct e
    by (cases "parse_return_12m t"; cases "parse_risk_score t")
       (auto simp: build_stats_def dict_keys_def)
qed

theorem build_stats_keys_witness:
  "parse_risk_score (U ''Risk score 7'') = Some 7
   \<and> build_stats (U ''Risk score 7'') = Some [(U ''risk_score'', VInt 7)]
   \<and> dict_keys [(U ''risk_score'', VInt 7)] = [U ''risk_score'']
   \<and> parse_return_12m (U ''n/a'') = None \<and> parse_risk_score (U ''n/a'') = None
   \<and> build_stats (U ''n/a'') = None"
proof -
  have r: "parse_risk_score (U ''Risk score 7'') = Some 7"
    by (simp add: re_eval char_eval)
  have p: "parse_return_12m (U ''Risk score 7'') = None"
    by (simp add: re_eval char_eval)
  have s: "build_stats (U ''Risk score 7'') = Some [(U ''risk_score'', VInt 7)]"
    by (simp add: build_stats_def r p)
  have k: "dict_keys [(U ''risk_score'', VInt 7)] = [U ''risk_score'']"
    using build_stats_keys[of "U ''Risk score 7''"] s r p by simp
  have n: "parse_return_12m (U ''n/a'') = None" "parse_risk_score (U ''n/a'') = None"
    by (simp_all add: re_eval char_eval)
  then have "build_stats (U ''n/a'') = None"
    using build_stats_keys[of "U ''n/a''"] by blast
  with r s k n show ?thesis by blast
qed

section \<open>The cards of the investor extractor\<close>

lemma investor_loop_map:
  "investor_loop cards url cat records =
     records @ map (\<lambda>card_el. investor_record card_el (get_text [0x20] True card_el) url cat)
       (filter (\<lambda>card_el. get_text [0x20] True card_el \<noteq> []) cards)"
  by (induction cards arbitrary: records) (simp_all add: Let_def)

lemma strip_nonspace_hd:
  assumes "t \<noteq> []" "\<not> isspace (hd t)"
  shows "strip t \<noteq> [] \<and> hd (strip t) = hd t"
proof -
  obtain x xs where t: "t = x # xs" using assms(1) by (cases t) auto
  with assms(2) have nx: "\<not> isspace x" by simp
  then have l: "lstrip t = x # xs" by (simp add: lstrip_def t)
  have "dropWhile isspace (rev xs @ [x]) = dropWhile isspace (rev xs) @ [x]"
    using nx by (rule dropWhile_append3)
  then have "rstrip (x # xs) = x # rev (dropWhile isspace (rev xs))" by (simp add: rstrip_def)
  with l show ?thesis by (simp add: strip_def t)
qed

lemma rstrip_hd: "rstrip t \<noteq> [] \<Longrightarrow> hd (rstrip t) = hd t"
proof -
  assume ne: "rstrip t \<noteq> []"
  from rstrip_decomp[of t] obtain ws where "t = rstrip t @ ws" by blast
  then have "hd t = hd (rstrip t @ ws)" by simp
  also have "\<dots> = hd (rstrip t)" using ne by simp
  finally show ?thesis by simp
qed

lemma strip_hd: "strip s \<noteq> [] \<Longrightarrow> \<not> isspace (hd (strip s))"
proof -
  assume ne: "strip s \<noteq> []"
  then have h: "hd (strip s) = hd (lstrip s)" unfolding strip_def by (rule rstrip_hd)
  have "lstrip s \<noteq> []"
  proof
    assume "lstrip s = []"
    then have "strip s = []" by (simp add: strip_def rstrip_def)
    with ne show False by simp
  qed
  then have "\<not> isspace (hd (lstrip s))" unfolding lstrip_def by (rule hd_dropWhile)
  with h show ?thesis by simp
qed

lemma join_hd: "xs \<noteq> [] \<Longrightarrow> hd xs \<noteq> [] \<Longrightarrow> join sep xs \<noteq> [] \<and> hd (join sep xs) = hd (hd xs)"
proof (cases xs)
  case Nil
  assume "xs \<noteq> []"
  with Nil show ?thesis by simp
next
  case (Cons x ys)
  assume "hd xs \<noteq> []"
  with Cons show ?thesis by (cases ys) simp_all
qed

lemma join_Nil_iff: "join sep [] = []"
  by simp

lemma get_text_strip_hd:
  assumes "get_text sep True n \<noteq> []"
  shows "\<not> isspace (hd (get_text sep True n))"
proof -
  define ss where "ss = all_strings True n"
  have g: "get_text sep True n = join sep ss" by (simp add: get_text_def ss_def)
  have mem: "\<forall>x \<in> set ss. x \<noteq> [] \<and> (\<exists>s. x = strip s)"
    unfolding ss_def all_strings_def Let_def by auto
  have "ss \<noteq> []" using assms g by auto
  then obtain x xs where ss: "ss = x # xs" by (cases ss) auto
  with mem obtain s where x: "x \<noteq> []" "x = strip s" by auto
  from join_hd[of ss sep] ss x(1) have "hd (join sep ss) = hd x" by simp
  moreover from strip_hd[of s] x have "\<not> isspace (hd x)" by simp
  ultimately show ?thesis unfolding g by simp
qed

lemma before_first_hd:
  assumes "t \<noteq> []" "sep \<noteq> []" "hd t \<noteq> hd sep"
  shows "before_first sep t \<noteq> [] \<and> hd (before_first sep t) = hd t"
proof -
  obtain x xs where t: "t = x # xs" using assms(1) by (cases t) auto
  obtain a as where s: "sep = a # as" using assms(2) by (cases sep) auto
  from assms(3) t s have "x \<noteq> a" by simp
  then have "\<not> prefix sep (x # xs)" unfolding s by simp
  then show ?thesis unfolding t by simp
qed

lemma isspace_space: "isspace 0x20"
  by (simp add: char_eval)

lemma fallback_name_nonempty:
  assumes "text \<noteq> []" "\<not> isspace (hd text)"
  shows "strip (before_first [0x20] (strip (before_first [0x20, 0x20] text))) \<noteq> []"
proof -
  from assms(2) isspace_space have n: "hd text \<noteq> 0x20" by auto
  let ?a = "before_first [0x20, 0x20] text"
  from before_first_hd[of "text" "[0x20, 0x20]"] assms(1) n
  have a: "?a \<noteq> []" "hd ?a = hd text" by simp_all
  let ?b = "strip ?a"
  from strip_nonspace_hd[of ?a] a assms(2) have b: "?b \<noteq> []" "hd ?b = hd text" by simp_all
  let ?c = "before_first [0x20] ?b"
  from before_first_hd[of ?b "[0x20]"] b n have c: "?c \<noteq> []" "hd ?c = hd text" by simp_all
  from strip_nonspace_hd[of ?c] c assms(2) show ?thesis by simp
qed

lemma investor_name_nonempty:
  assumes "get_text [0x20] True card_el \<noteq> []"
  shows "\<exists>name. investor_name_of card_el (get_text [0x20] True card_el) = Some name \<and> name \<noteq> []"
proof -
  let ?text = "get_text [0x20] True card_el"
  from get_text_strip_hd[OF assms] have "\<not> isspace (hd ?text)" .
  from fallback_name_nonempty[OF assms this]
  have f: "strip (before_first [0x20] (strip (before_first [0x20, 0x20] ?text))) \<noteq> []" .
  show ?thesis
    unfolding investor_name_of_def Let_def using f
    by (auto simp: str_truthy_def split: option.splits)
qed

lemma investor_record_name:
  "dict_get (investor_record card_el text url cat) (U ''investor_name'') = opt_str (investor_name_of card_el text)"
  by (simp add: investor_record_def dict_get_def Let_def U_def)

text \<open>
  C6. \<^verbatim>\<open>parse_investor_page\<close> returns, in document order, one record for each element
  selected by \<^verbatim>\<open>[class*='user'], [class*='investor'], [data-etoro-user], [data-user-card]\<close>
  whose visible text is not empty, and none for a selected element without visible text;
  in every record \<^verbatim>\<open>investor_name\<close> is a string that is not empty.
\<close>

theorem parse_investor_page_records:
  "parse_investor_page soup source_url category =
     map (\<lambda>card_el. investor_record card_el (get_text [0x20] True card_el) source_url category)
       (filter (\<lambda>card_el. get_text [0x20] True card_el \<noteq> []) (find_all card_selector soup))
   \<and> (\<forall>r \<in> set (parse_investor_page soup source_url category).
         \<exists>name. dict_get r (U ''investor_name'') = VStr name \<and> name \<noteq> [])"
proof -
  have a: "parse_investor_page soup source_url category =
     map (\<lambda>card_el. investor_record card_el (get_text [0x20] True card_el) source_url category)
       (filter (\<lambda>card_el. get_text [0x20] True card_el \<noteq> []) (find_all card_selector soup))"
    by (simp add: parse_investor_page_def investor_loop_map)
  have b: "\<exists>name. dict_get r (U ''investor_name'') = VStr name \<and> name \<noteq> []"
    if "r \<in> set (parse_investor_page soup source_url category)" for r
  proof -
    from that obtain card_el where c: "get_text [0x20] True card_el \<noteq> []"
      "r = investor_record card_el (get_text [0x20] True card_el) source_url category"
      unfolding a by auto
    from investor_name_nonempty[OF c(1)] obtain name where
      "investor_name_of card_el (get_text [0x20] True card_el) = Some name" "name \<noteq> []" by blast
    then show ?thesis unfolding c(2) investor_record_name by (simp add: opt_str_def)
  qed
  from a b show ?thesis by blast
qed

lemmas dom_eval = has_attr_def find_all_def find_first_def select_ids_def named_def
  interesting_string_types_def all_strings_def get_text_def class_contains_def has_class_def
  class_lambda_def str_truthy_def

lemmas stock_eval = delim_char_def upper_char_def ticker_re_def guess_ticker_from_title_def
  meta_with_def breadcrumb_selector_def extract_category_def derive_stock_name_def or_empty_def
  parse_stock_page_def

lemma ex_tsla:
  "parse_stock_page
     (Tag (U ''[document]'') None []
        [Tag (U ''meta'') None [(U ''property'', U ''og:title''), (U ''content'', U ''TSLA (Tesla, Inc.)'')] []])
     (U ''u'') None
   = [[(U ''stock_name'', VStr (U ''TSLA (Tesla, Inc.)'')),
       (U ''ticker'', VStr (U ''TSLA'')),
       (U ''investor_name'', VNone),
       (U ''investor_stats'', VNone),
       (U ''post_content'', VNone),
       (U ''comment_text'', VNone),
       (U ''likes_count'', VNone),
       (U ''post_date'', VNone),
       (U ''category'', VNone),
       (U ''source_url'', VStr (U ''u''))]]"
  by (simp add: stock_eval dom_eval re_eval char_eval opt_str_def Let_def)

lemmas investor_eval = card_selector_def stats_value_def investor_name_of_def
  investor_record_def parse_investor_page_def build_stats_def

lemma ex_investor:
  "parse_investor_page
     (Tag (U ''[document]'') None []
        [Tag (U ''div'') (Some [U ''user-card'']) [] [Str Text (U '' Ann  B '')],
         Tag (U ''div'') (Some [U ''investor'']) [] [Str Text (U ''  '')]])
     (U ''u'') None
   = [[(U ''stock_name'', VNone),
       (U ''ticker'', VNone),
       (U ''investor_name'', VStr (U ''Ann'')),
       (U ''investor_stats'', VNone),
       (U ''post_content'', VNone),
       (U ''comment_text'', VNone),
       (U ''likes_count'', VNone),
       (U ''post_date'', VNone),
       (U ''category'', VNone),
       (U ''source_url'', VStr (U ''u''))]]"
  by (simp add: investor_eval dom_eval re_eval char_eval opt_str_def Let_def)

theorem parse_investor_page_records_witness:
  "parse_investor_page
     (Tag (U ''[document]'') None []
        [Tag (U ''div'') (Some [U ''user-card'']) [] [Str Text (U '' Ann  B '')],
         Tag (U ''div'') (Some [U ''investor'']) [] [Str Text (U ''  '')]])
     (U ''u'') None
   = [[(U ''stock_name'', VNone),
       (U ''ticker'', VNone),
       (U ''investor_name'', VStr (U ''Ann'')),
       (U ''investor_stats'', VNone),
       (U ''post_content'', VNone),
       (U ''comment_text'', VNone),
       (U ''likes_count'', VNone),
       (U ''post_date'', VNone),
       (U ''category'', VNone),
       (U ''source_url'', VStr (U ''u''))]]
   \<and> (\<exists>name. dict_get (hd (parse_investor_page
          (Tag (U ''[document]'') None []
             [Tag (U ''div'') (Some [U ''user-card'']) [] [Str Text (U '' Ann  B '')],
              Tag (U ''div'') (Some [U ''investor'']) [] [Str Text (U ''  '')]])
          (U ''u'') None)) (U ''investor_name'') = VStr name \<and> name \<noteq> [])"
proof -
  let ?soup = "Tag (U ''[document]'') None []
        [Tag (U ''div'') (Some [U ''user-card'']) [] [Str Text (U '' Ann  B '')],
         Tag (U ''div'') (Some [U ''investor'']) [] [Str Text (U ''  '')]]"
  have e: "parse_investor_page ?soup (U ''u'') None
   = [[(U ''stock_name'', VNone),
       (U ''ticker'', VNone),
       (U ''investor_name'', VStr (U ''Ann'')),
       (U ''investor_stats'', VNone),
       (U ''post_content'', VNone),
       (U ''comment_text'', VNone),
       (U ''likes_count'', VNone),
       (U ''post_date'', VNone),
       (U ''category'', VNone),
       (U ''source_url'', VStr (U ''u''))]]"
    by (rule ex_investor)
  then have "hd (parse_investor_page ?soup (U ''u'') None)
      \<in> set (parse_investor_page ?soup (U ''u'') None)" by simp
  with parse_investor_page_records[of ?soup "U ''u''" None]
  have "\<exists>name. dict_get (hd (parse_investor_page ?soup (U ''u'') None)) (U ''investor_name'')
      = VStr name \<and> name \<noteq> []" by blast
  with e show ?thesis by blast
qed

section \<open>The ticker guess and the stock page\<close>

lemma upper_isword: "upper_char c \<Longrightarrow> isword c"
  by (simp add: upper_char_def isword_def)

lemma mem_WordB:
  "(pv', t', c') \<in> set (ms WordB pv t c) \<longleftrightarrow> (word_boundary pv t \<and> pv' = pv \<and> t' = t \<and> c' = c)"
  by auto

lemma takeWhile_run:
  assumes "list_all p w" "r = [] \<or> \<not> p (hd r)"
  shows "takeWhile p (w @ r) = w \<and> dropWhile p (w @ r) = r"
proof -
  from assms(2) have 1: "takeWhile p r = []" "dropWhile p r = r" by (cases r; simp)+
  from assms(1) have a: "\<forall>x \<in> set w. p x" by (simp add: list_all_iff)
  then have "takeWhile p (w @ r) = w @ takeWhile p r" "dropWhile p (w @ r) = dropWhile p r"
    by simp_all
  with 1 show ?thesis by simp
qed

lemma word_boundary_after:
  "isword y \<Longrightarrow> r = [] \<or> \<not> isword (hd r) \<Longrightarrow> word_boundary (Some y) r"
  by (cases r) (auto simp: word_boundary_def)

lemma ms_ticker_re:
  "(pv', t', c') \<in> set (ms ticker_re pv t c) \<longleftrightarrow>
     ((case pv of None \<Rightarrow> True | Some y \<Rightarrow> \<not> isword y) \<and> ticker_word (takeWhile isword t)
      \<and> t' = dropWhile isword t \<and> pv' = Some (last (takeWhile isword t)) \<and> c' = c)"
proof
  assume "(pv', t', c') \<in> set (ms ticker_re pv t c)"
  then obtain pv1 t1 c1 pv2 t2 c2 where
    1: "(pv1, t1, c1) \<in> set (ms WordB pv t c)" and
    2: "(pv2, t2, c2) \<in> set (ms (Rep upper_char 1 (Some 5)) pv1 t1 c1)" and
    3: "(pv', t', c') \<in> set (ms WordB pv2 t2 c2)"
    unfolding ticker_re_def seqs.simps mem_Seq by blast
  from 1 have b1: "word_boundary pv t" "pv1 = pv" "t1 = t" "c1 = c"
    unfolding mem_WordB by simp_all
  from 2 obtain w where w: "t1 = w @ t2" "lang (Rep upper_char 1 (Some 5)) w"
      "pv2 = last_char pv1 w" "c2 = c1"
    unfolding mem_Rep by blast
  from w(2) have wl: "list_all upper_char w" "1 \<le> length w" "length w \<le> 5" by simp_all
  from wl(2) have wne: "w \<noteq> []" by auto
  from 3 have b3: "word_boundary pv2 t2" "pv' = pv2" "t' = t2" "c' = c2"
    unfolding mem_WordB by simp_all
  have ww: "list_all isword w" using wl(1) upper_isword by (auto simp: list_all_iff)
  have pv2: "pv2 = Some (last w)" using w(3) wne by (simp add: last_char_def)
  have "isword (last w)" using ww wne by (simp add: list_all_iff)
  with b3(1) pv2 have r: "t2 = [] \<or> \<not> isword (hd t2)"
    by (cases t2) (simp_all add: word_boundary_def)
  obtain x xs where wx: "w = x # xs" using wne by (cases w) auto
  with ww have "isword x" by simp
  with b1(1) have ok: "case pv of None \<Rightarrow> True | Some y \<Rightarrow> \<not> isword y"
    unfolding b1(3)[symmetric] w(1) wx by (cases pv) (simp_all add: word_boundary_def)
  from takeWhile_run[OF ww r] have tw: "takeWhile isword t = w" "dropWhile isword t = t2"
    using b1(3) w(1) by simp_all
  have "ticker_word w" using wl wne by (simp add: ticker_word_def)
  with ok tw b3 pv2 w(4) b1(4)
  show "(case pv of None \<Rightarrow> True | Some y \<Rightarrow> \<not> isword y) \<and> ticker_word (takeWhile isword t)
      \<and> t' = dropWhile isword t \<and> pv' = Some (last (takeWhile isword t)) \<and> c' = c"
    by simp
next
  assume R: "(case pv of None \<Rightarrow> True | Some y \<Rightarrow> \<not> isword y) \<and> ticker_word (takeWhile isword t)
      \<and> t' = dropWhile isword t \<and> pv' = Some (last (takeWhile isword t)) \<and> c' = c"
  let ?w = "takeWhile isword t"
  let ?r = "dropWhile isword t"
  from R have tk: "?w \<noteq> []" "length ?w \<le> 5" "list_all upper_char ?w"
    by (simp_all add: ticker_word_def)
  have t: "t = ?w @ ?r" by simp
  obtain x xs where tx: "t = x # xs" "isword x" using tk(1) by (cases t) (auto split: if_splits)
  from R have "word_boundary pv t" unfolding tx(1) using tx(2)
    by (cases pv) (simp_all add: word_boundary_def)
  then have 1: "(pv, t, c) \<in> set (ms WordB pv t c)" unfolding mem_WordB by simp
  have "lang (Rep upper_char 1 (Some 5)) ?w" using tk by (cases ?w) simp_all
  moreover have "last_char pv ?w = Some (last ?w)" using tk(1) by (simp add: last_char_def)
  ultimately have 2: "(Some (last ?w), ?r, c) \<in> set (ms (Rep upper_char 1 (Some 5)) pv t c)"
    unfolding mem_Rep using t by metis
  have "last ?w \<in> set ?w" using tk(1) by simp
  then have lw: "isword (last ?w)" by (meson set_takeWhileD)
  have "?r = [] \<or> \<not> isword (hd ?r)" using hd_dropWhile[of isword t] by blast
  with lw have "word_boundary (Some (last ?w)) ?r"
    by (rule word_boundary_after)
  then have 3: "(Some (last ?w), ?r, c) \<in> set (ms WordB (Some (last ?w)) ?r c)"
    unfolding mem_WordB by simp
  from R have e: "t' = ?r" "pv' = Some (last ?w)" "c' = c" by simp_all
  show "(pv', t', c') \<in> set (ms ticker_re pv t c)"
    unfolding ticker_re_def seqs.simps mem_Seq e using 1 2 3 by blast
qed

lemma split_chars_hd:
  "split_chars p t \<noteq> [] \<and> hd (split_chars p t) = takeWhile (\<lambda>c. \<not> p c) t"
  by (induction t) (auto split: list.splits)

lemma split_chars_tl:
  "tl (split_chars p (x # xs)) = (if p x then split_chars p xs else tl (split_chars p xs))"
  using split_chars_hd[of p xs] by (auto split: list.splits)

lemma find_hd_tl:
  "xs \<noteq> [] \<Longrightarrow> find P xs = (if P (hd xs) then Some (hd xs) else find P (tl xs))"
  by (cases xs) simp_all

lemma take_length_dropWhile: "take (length t - length (dropWhile P t)) t = takeWhile P t"
proof -
  have "length t = length (takeWhile P t) + length (dropWhile P t)"
    by (metis length_append takeWhile_dropWhile_id)
  then have "length t - length (dropWhile P t) = length (takeWhile P t)" by simp
  then show ?thesis by (metis append_eq_conv_conj takeWhile_dropWhile_id)
qed

lemma search_ticker:
  "map_option (\<lambda>(b, m, c). m) (search_loop ticker_re pv before t) =
     find ticker_word
       (if (case pv of None \<Rightarrow> True | Some y \<Rightarrow> \<not> isword y)
        then split_chars (\<lambda>c. \<not> isword c) t
        else tl (split_chars (\<lambda>c. \<not> isword c) t))"
proof (induction t arbitrary: pv before)
  case Nil
  have "ms ticker_re pv [] Map.empty = []"
  proof (cases "ms ticker_re pv [] Map.empty")
    case Nil
    then show ?thesis .
  next
    case (Cons e es)
    obtain a b c where "e = (a, b, c)" by (cases e)
    with Cons have "(a, b, c) \<in> set (ms ticker_re pv [] Map.empty)" by simp
    then show ?thesis unfolding ms_ticker_re by (simp add: ticker_word_def)
  qed
  then show ?case by (simp add: ticker_word_def)
next
  case (Cons x xs)
  let ?t = "x # xs"
  let ?S = "split_chars (\<lambda>c. \<not> isword c)"
  let ?ok = "case pv of None \<Rightarrow> True | Some y \<Rightarrow> \<not> isword y"
  have hdS: "?S ?t \<noteq> []" "hd (?S ?t) = takeWhile isword ?t"
    using split_chars_hd[of "\<lambda>c. \<not> isword c" ?t] by simp_all
  show ?case
  proof (cases "?ok \<and> ticker_word (takeWhile isword ?t)")
    case True
    then have mem: "(Some (last (takeWhile isword ?t)), dropWhile isword ?t, Map.empty)
        \<in> set (ms ticker_re pv ?t Map.empty)"
      unfolding ms_ticker_re by simp
    then obtain e es where M: "ms ticker_re pv ?t Map.empty = e # es"
      by (cases "ms ticker_re pv ?t Map.empty") auto
    obtain a b c where e: "e = (a, b, c)" by (cases e)
    with M have "(a, b, c) \<in> set (ms ticker_re pv ?t Map.empty)" by simp
    then have b: "b = dropWhile isword ?t" unfolding ms_ticker_re by simp
    have "search_loop ticker_re pv before ?t
        = Some (before, take (length ?t - length (dropWhile isword ?t)) ?t, c)"
      using M e b by (simp del: ms.simps)
    then have L: "map_option (\<lambda>(b, m, c). m) (search_loop ticker_re pv before ?t)
        = Some (takeWhile isword ?t)"
      unfolding take_length_dropWhile by simp
    have "find ticker_word (?S ?t) = Some (takeWhile isword ?t)"
      using find_hd_tl[OF hdS(1), of ticker_word] True hdS(2) by simp
    with L True show ?thesis by simp
  next
    case False
    have M: "ms ticker_re pv ?t Map.empty = []"
    proof (cases "ms ticker_re pv ?t Map.empty")
      case Nil
      then show ?thesis .
    next
      case (Cons e es)
      obtain a b c where "e = (a, b, c)" by (cases e)
      with Cons have "(a, b, c) \<in> set (ms ticker_re pv ?t Map.empty)" by simp
      with False show ?thesis unfolding ms_ticker_re by simp
    qed
    then have "search_loop ticker_re pv before ?t
        = search_loop ticker_re (Some x) (before @ [x]) xs"
      by (simp del: ms.simps)
    then have L: "map_option (\<lambda>(b, m, c). m) (search_loop ticker_re pv before ?t)
        = find ticker_word (if \<not> isword x then ?S xs else tl (?S xs))"
      using Cons.IH[of "Some x" "before @ [x]"] by simp
    have tl: "tl (?S ?t) = (if \<not> isword x then ?S xs else tl (?S xs))"
      by (rule split_chars_tl)
    have "find ticker_word (if ?ok then ?S ?t else tl (?S ?t)) = find ticker_word (tl (?S ?t))"
    proof (cases ?ok)
      case True
      with False have "\<not> ticker_word (hd (?S ?t))" using hdS(2) by simp
      with find_hd_tl[OF hdS(1), of ticker_word] True show ?thesis by simp
    next
      case False
      then show ?thesis by simp
    qed
    with L tl show ?thesis by simp
  qed
qed

lemma search_Chr_before:
  "(search_loop (Chr p) pv before t = None \<longrightarrow> takeWhile (\<lambda>c. \<not> p c) t = t)
   \<and> (\<forall>b m c. search_loop (Chr p) pv before t = Some (b, m, c) \<longrightarrow>
          b = before @ takeWhile (\<lambda>c. \<not> p c) t)"
proof (induction t arbitrary: pv before)
  case Nil
  have "search_loop (Chr p) pv before [] = None" by (subst search_loop.simps) simp
  then show ?case by simp
next
  case (Cons a t)
  have unf: "search_loop (Chr p) pv before (a # t) =
      (if p a then Some (before, [a], Map.empty)
       else search_loop (Chr p) (Some a) (before @ [a]) t)"
    by (subst search_loop.simps) (simp del: search_loop.simps)
  show ?case
  proof (cases "p a")
    case True
    then show ?thesis unfolding unf by simp
  next
    case False
    then show ?thesis
      using Cons.IH[where pv="Some a" and before="before @ [a]"] unfolding unf
      by (simp del: search_loop.simps)
  qed
qed

lemma cleaned_takeWhile:
  "(case re_search (Chr p) title of None \<Rightarrow> title | Some (before, _, _) \<Rightarrow> before)
     = takeWhile (\<lambda>c. \<not> p c) title"
proof (cases "search_loop (Chr p) None [] title")
  case None
  with search_Chr_before[where p=p and pv=None and before="[]" and t=title]
  have tw: "takeWhile (\<lambda>c. \<not> p c) title = title" by blast
  show ?thesis unfolding re_search_def None option.case tw by (rule refl)
next
  case (Some r)
  obtain b m c where r: "r = (b, m, c)" by (cases r)
  with Some search_Chr_before[where p=p and pv=None and before="[]" and t=title]
  have "b = [] @ takeWhile (\<lambda>c. \<not> p c) title" by blast
  then have b: "b = takeWhile (\<lambda>c. \<not> p c) title" by (simp only: append_Nil)
  show ?thesis unfolding re_search_def Some r option.case prod.case by (rule b)
qed

lemma guess_ticker_first_ticker:
  "guess_ticker_from_title title = first_ticker (takeWhile (\<lambda>c. \<not> delim_char c) title)"
proof (cases "title = []")
  case True
  then show ?thesis
    by (simp add: guess_ticker_from_title_def first_ticker_def ticker_word_def)
next
  case False
  let ?cl = "takeWhile (\<lambda>c. \<not> delim_char c) title"
  have "guess_ticker_from_title title
      = (case re_search ticker_re ?cl of None \<Rightarrow> None | Some (_, m, _) \<Rightarrow> Some m)"
    using False unfolding guess_ticker_from_title_def Let_def cleaned_takeWhile
    by (simp del: search_loop.simps)
  also have "\<dots> = map_option (\<lambda>(b, m, c). m) (search_loop ticker_re None [] ?cl)"
    unfolding re_search_def
    by (cases "search_loop ticker_re None [] ?cl") (auto simp del: search_loop.simps)
  also have "\<dots> = first_ticker ?cl"
    unfolding search_ticker first_ticker_def by simp
  finally show ?thesis .
qed

lemma guess_ticker_empty: "guess_ticker_from_title [] = None"
  by (simp add: guess_ticker_from_title_def)

lemma parse_stock_page_cases:
  "parse_stock_page soup source_url category =
     (if \<not> str_truthy (derive_stock_name soup) then []
      else [[(U ''stock_name'', opt_str (derive_stock_name soup)),
             (U ''ticker'', opt_str (guess_ticker_from_title (the (derive_stock_name soup)))),
             (U ''investor_name'', VNone),
             (U ''investor_stats'', VNone),
             (U ''post_content'', VNone),
             (U ''comment_text'', VNone),
             (U ''likes_count'', VNone),
             (U ''post_date'', VNone),
             (U ''category'', opt_str
                (if category = None
                 then (if str_truthy (extract_category soup) then extract_category soup
                       else category)
                 else category)),
             (U ''source_url'', VStr source_url)]])"
  by (simp add: parse_stock_page_def Let_def or_empty_def guess_ticker_empty str_truthy_def)

lemma derive_stock_name_og:
  assumes "find_first (meta_with (U ''property'') (U ''og:title'')) soup = Some m"
    "attr m (U ''content'') = Some v" "v \<noteq> []" "strip v \<noteq> []"
  shows "derive_stock_name soup = Some (strip v)"
  using assms by (simp add: derive_stock_name_def Let_def str_truthy_def)

lemma derive_stock_name_none:
  assumes "find_first (meta_with (U ''property'') (U ''og:title'')) soup = None"
    "find_first (named (U ''h1'')) soup = None" "find_first (named (U ''title'')) soup = None"
  shows "derive_stock_name soup = None"
  using assms by (simp add: derive_stock_name_def Let_def str_truthy_def)

lemma record_fields:
  "dict_get [(U ''stock_name'', a), (U ''ticker'', b), (U ''investor_name'', c),
      (U ''investor_stats'', d), (U ''post_content'', e), (U ''comment_text'', f),
      (U ''likes_count'', g), (U ''post_date'', h), (U ''category'', i), (U ''source_url'', j)] k
   = (if k = U ''stock_name'' then a else if k = U ''ticker'' then b
      else if k = U ''investor_name'' then c else if k = U ''investor_stats'' then d
      else if k = U ''post_content'' then e else if k = U ''comment_text'' then f
      else if k = U ''likes_count'' then g else if k = U ''post_date'' then h
      else if k = U ''category'' then i else if k = U ''source_url'' then j else VNone)"
  by (simp add: dict_get_def)

lemma field_names_distinct:
  "U ''ticker'' \<noteq> U ''stock_name''"
  by (simp add: U_def)

text \<open>
  C3 (as amended). \<^verbatim>\<open>parse_stock_page\<close> returns the empty list exactly when the derived
  stock name (Open Graph title, else first \<^verbatim>\<open>h1\<close>, else document title) is null or
  empty; the ticker guess is then null too. Otherwise it returns exactly one record, with
  that name and the ticker guess. The ticker guess is the first word made of 1 to 5 letters
  from A to Z (a maximal run of word characters, which is what the word boundaries delimit)
  in the part of the name before the first opening parenthesis, pipe, hyphen or en dash.
  A page whose Open Graph title is "TSLA (Tesla, Inc.)" gives the ticker "TSLA" and
  exactly one record; a page with no Open Graph title, no \<^verbatim>\<open>h1\<close> and no document title
  gives the empty list.
\<close>

theorem parse_stock_page_result:
  "(parse_stock_page soup source_url category = [] \<longleftrightarrow> \<not> str_truthy (derive_stock_name soup))
   \<and> (\<not> str_truthy (derive_stock_name soup) \<longrightarrow>
        guess_ticker_from_title (or_empty (derive_stock_name soup)) = None)
   \<and> (str_truthy (derive_stock_name soup) \<longrightarrow>
        (\<exists>r. parse_stock_page soup source_url category = [r]
           \<and> dict_get r (U ''stock_name'') = opt_str (derive_stock_name soup)
           \<and> dict_get r (U ''ticker'') =
               opt_str (first_ticker (takeWhile (\<lambda>c. \<not> delim_char c)
                          (the (derive_stock_name soup))))))
   \<and> guess_ticker_from_title title = first_ticker (takeWhile (\<lambda>c. \<not> delim_char c) title)
   \<and> (\<forall>m. find_first (meta_with (U ''property'') (U ''og:title'')) soup = Some m
          \<and> attr m (U ''content'') = Some (U ''TSLA (Tesla, Inc.)'') \<longrightarrow>
        (\<exists>r. parse_stock_page soup source_url category = [r]
           \<and> dict_get r (U ''ticker'') = VStr (U ''TSLA'')))
   \<and> (find_first (meta_with (U ''property'') (U ''og:title'')) soup = None
        \<and> find_first (named (U ''h1'')) soup = None
        \<and> find_first (named (U ''title'')) soup = None \<longrightarrow>
        parse_stock_page soup source_url category = [])"
proof -
  have a: "parse_stock_page soup source_url category = [] \<longleftrightarrow> \<not> str_truthy (derive_stock_name soup)"
    unfolding parse_stock_page_cases by simp
  have b: "\<not> str_truthy (derive_stock_name soup) \<longrightarrow>
        guess_ticker_from_title (or_empty (derive_stock_name soup)) = None"
    by (simp add: or_empty_def guess_ticker_empty)
  have c: "\<exists>r. parse_stock_page soup source_url category = [r]
           \<and> dict_get r (U ''stock_name'') = opt_str (derive_stock_name soup)
           \<and> dict_get r (U ''ticker'') =
               opt_str (first_ticker (takeWhile (\<lambda>c. \<not> delim_char c)
                          (the (derive_stock_name soup))))"
    if "str_truthy (derive_stock_name soup)"
    unfolding parse_stock_page_cases guess_ticker_first_ticker using that
    by (simp add: record_fields field_names_distinct)
  have d: "guess_ticker_from_title title = first_ticker (takeWhile (\<lambda>c. \<not> delim_char c) title)"
    by (rule guess_ticker_first_ticker)
  have e: "\<exists>r. parse_stock_page soup source_url category = [r]
           \<and> dict_get r (U ''ticker'') = VStr (U ''TSLA'')"
    if h: "find_first (meta_with (U ''property'') (U ''og:title'')) soup = Some m"
      "attr m (U ''content'') = Some (U ''TSLA (Tesla, Inc.)'')" for m
  proof -
    have s: "strip (U ''TSLA (Tesla, Inc.)'') = U ''TSLA (Tesla, Inc.)''"
      by (simp add: char_eval)
    have ne: "U ''TSLA (Tesla, Inc.)'' \<noteq> []" by (simp add: U_def)
    from derive_stock_name_og[OF h] s ne
    have n: "derive_stock_name soup = Some (U ''TSLA (Tesla, Inc.)'')" by simp
    have g: "guess_ticker_from_title (U ''TSLA (Tesla, Inc.)'') = Some (U ''TSLA'')"
      by (simp add: stock_eval re_eval char_eval)
    show ?thesis
      unfolding parse_stock_page_cases n using ne g
      by (simp add: record_fields field_names_distinct str_truthy_def opt_str_def)
  qed
  have f: "find_first (meta_with (U ''property'') (U ''og:title'')) soup = None
        \<and> find_first (named (U ''h1'')) soup = None
        \<and> find_first (named (U ''title'')) soup = None \<longrightarrow>
        parse_stock_page soup source_url category = []"
    using derive_stock_name_none[of soup] unfolding parse_stock_page_cases
    by (simp add: str_truthy_def)
  from a b c d e f show ?thesis by blast
qed

theorem parse_stock_page_result_witness:
  "(\<exists>r. parse_stock_page
          (Tag (U ''[document]'') None []
             [Tag (U ''meta'') None
                [(U ''property'', U ''og:title''), (U ''content'', U ''TSLA (Tesla, Inc.)'')] []])
          (U ''u'') None = [r]
        \<and> dict_get r (U ''ticker'') = VStr (U ''TSLA''))
   \<and> parse_stock_page (Tag (U ''[document]'') None [] []) (U ''u'') None = []
   \<and> guess_ticker_from_title (U ''Tesla TSLA - NASDAQ'') = Some (U ''TSLA'')"
proof -
  let ?m = "Tag (U ''meta'') None
                [(U ''property'', U ''og:title''), (U ''content'', U ''TSLA (Tesla, Inc.)'')] []"
  let ?soup = "Tag (U ''[document]'') None [] [?m]"
  have 1: "find_first (meta_with (U ''property'') (U ''og:title'')) ?soup = Some ?m"
    by (simp add: dom_eval meta_with_def U_def)
  have 2: "attr ?m (U ''content'') = Some (U ''TSLA (Tesla, Inc.)'')"
    by (simp add: U_def)
  from 1 2 parse_stock_page_result[of ?soup "U ''u''" None "[]"]
  have a: "\<exists>r. parse_stock_page ?soup (U ''u'') None = [r]
        \<and> dict_get r (U ''ticker'') = VStr (U ''TSLA'')" by blast
  have 3: "find_first (meta_with (U ''property'') (U ''og:title'')) (Tag (U ''[document]'') None [] []) = None"
    "find_first (named (U ''h1'')) (Tag (U ''[document]'') None [] []) = None"
    "find_first (named (U ''title'')) (Tag (U ''[document]'') None [] []) = None"
    by (simp_all add: dom_eval)
  with parse_stock_page_result[of "Tag (U ''[document]'') None [] []" "U ''u''" None "[]"]
  have b: "parse_stock_page (Tag (U ''[document]'') None [] []) (U ''u'') None = []" by blast
  have "first_ticker (takeWhile (\<lambda>c. \<not> delim_char c) (U ''Tesla TSLA - NASDAQ'')) = Some (U ''TSLA'')"
    by (simp add: first_ticker_def ticker_word_def delim_char_def upper_char_def isword_def U_def)
  with parse_stock_page_result[of "Tag (U ''[document]'') None [] []" "U ''u''" None "U ''Tesla TSLA - NASDAQ''"]
  have c: "guess_ticker_from_title (U ''Tesla TSLA - NASDAQ'') = Some (U ''TSLA'')" by simp
  from a b c show ?thesis by blast
qed

text \<open>
  A page whose Open Graph title is a single space: the derived name is the empty string,
  not null, and the result is the empty list.
\<close>

theorem parse_stock_page_blank_title_counterexample:
  "parse_stock_page
     (Tag (U ''[document]'') None []
        [Tag (U ''meta'') None [(U ''property'', U ''og:title''), (U ''content'', U '' '')] []])
     (U ''u'') None = []
   \<and> derive_stock_name
     (Tag (U ''[document]'') None []
        [Tag (U ''meta'') None [(U ''property'', U ''og:title''), (U ''content'', U '' '')] []])
     = Some []"
  by (simp add: stock_eval dom_eval re_eval char_eval)

section \<open>The records of the post extractor\<close>

lemma filter_commute: "filter A (filter B zs) = filter B (filter A zs)"
  by (induction zs) auto

lemma filter_absorb:
  "\<not> P (fst x) \<Longrightarrow> filter (\<lambda>e. P (fst e)) (filter (\<lambda>e'. fst e' \<noteq> fst x) zs)
     = filter (\<lambda>e. P (fst e)) zs"
  by (induction zs) auto

lemma first_seen_filter:
  "first_seen (filter (\<lambda>e. P (fst e)) xs) = filter (\<lambda>e. P (fst e)) (first_seen xs)"
proof (induction xs)
  case Nil
  then show ?case by simp
next
  case (Cons x xs)
  show ?case
  proof (cases "P (fst x)")
    case True
    then have "first_seen (filter (\<lambda>e. P (fst e)) (x # xs))
        = x # filter (\<lambda>e'. fst e' \<noteq> fst x) (first_seen (filter (\<lambda>e. P (fst e)) xs))"
      by simp
    also have "\<dots> = x # filter (\<lambda>e'. fst e' \<noteq> fst x) (filter (\<lambda>e. P (fst e)) (first_seen xs))"
      by (simp only: Cons.IH)
    also have "\<dots> = x # filter (\<lambda>e. P (fst e)) (filter (\<lambda>e'. fst e' \<noteq> fst x) (first_seen xs))"
      by (subst filter_commute) (rule refl)
    also have "\<dots> = filter (\<lambda>e. P (fst e)) (x # filter (\<lambda>e'. fst e' \<noteq> fst x) (first_seen xs))"
      using True by (simp only: filter.simps if_True)
    finally show ?thesis by (simp only: first_seen.simps)
  next
    case False
    then have "first_seen (filter (\<lambda>e. P (fst e)) (x # xs))
        = first_seen (filter (\<lambda>e. P (fst e)) xs)"
      by simp
    also have "\<dots> = filter (\<lambda>e. P (fst e)) (first_seen xs)" by (rule Cons.IH)
    also have "\<dots> = filter (\<lambda>e. P (fst e)) (filter (\<lambda>e'. fst e' \<noteq> fst x) (first_seen xs))"
      using filter_absorb[where P=P and x=x, OF False] by (rule sym)
    also have "\<dots> = filter (\<lambda>e. P (fst e)) (x # filter (\<lambda>e'. fst e' \<noteq> fst x) (first_seen xs))"
      using False by (simp only: filter.simps if_False)
    finally show ?thesis by (simp only: first_seen.simps)
  qed
qed

lemma uniq_loop_first_seen:
  "uniq_loop elems seen uniq = uniq @ first_seen (filter (\<lambda>e. fst e \<notin> seen) elems)"
proof (induction elems arbitrary: seen uniq)
  case Nil
  then show ?case by simp
next
  case (Cons e es)
  show ?case
  proof (cases "fst e \<in> seen")
    case True
    then show ?thesis using Cons.IH[of seen uniq] by simp
  next
    case False
    have f: "filter (\<lambda>e'. fst e' \<notin> insert (fst e) seen) es
        = filter (\<lambda>e'. fst e' \<noteq> fst e) (filter (\<lambda>e'. fst e' \<notin> seen) es)"
      by (induction es) auto
    have "first_seen (filter (\<lambda>e'. fst e' \<notin> insert (fst e) seen) es)
        = first_seen (filter (\<lambda>e'. fst e' \<noteq> fst e) (filter (\<lambda>e'. fst e' \<notin> seen) es))"
      by (simp only: f)
    also have "\<dots> = filter (\<lambda>e'. fst e' \<noteq> fst e) (first_seen (filter (\<lambda>e'. fst e' \<notin> seen) es))"
      by (rule first_seen_filter[where P="\<lambda>k. k \<noteq> fst e"])
    finally have g: "first_seen (filter (\<lambda>e'. fst e' \<notin> insert (fst e) seen) es)
        = filter (\<lambda>e'. fst e' \<noteq> fst e) (first_seen (filter (\<lambda>e'. fst e' \<notin> seen) es))" .
    have "uniq_loop (e # es) seen uniq = uniq_loop es (insert (fst e) seen) (uniq @ [e])"
      using False by (simp add: Let_def)
    also have "\<dots> = (uniq @ [e]) @ first_seen (filter (\<lambda>e'. fst e' \<notin> insert (fst e) seen) es)"
      by (rule Cons.IH)
    also have "\<dots> = uniq @ e # filter (\<lambda>e'. fst e' \<noteq> fst e) (first_seen (filter (\<lambda>e'. fst e' \<notin> seen) es))"
      by (simp only: g append_assoc append_Cons append_Nil)
    also have "\<dots> = uniq @ first_seen (e # filter (\<lambda>e'. fst e' \<notin> seen) es)"
      by (simp only: first_seen.simps)
    also have "\<dots> = uniq @ first_seen (filter (\<lambda>e'. fst e' \<notin> seen) (e # es))"
      using False by (simp only: filter.simps not_False_eq_True if_True)
    finally show ?thesis .
  qed
qed

lemma comments_loop_map:
  "comments_loop lib comment_elems post_body timestamp url cat records =
     records @ map (\<lambda>c. comment_record lib c (get_text [0x20] True c) post_body timestamp url cat)
       (filter (\<lambda>c. get_text [0x20] True c \<noteq> [] \<and> get_text [0x20] True c \<noteq> post_body)
          comment_elems)"
  by (induction comment_elems arbitrary: records) (simp_all add: Let_def)

lemma posts_loop_concat:
  "posts_loop lib posts url cat records =
     records @ concat (map (\<lambda>post. post_records lib post url cat)
       (filter (\<lambda>post. get_text [0x20] True post \<noteq> []) posts))"
  by (induction posts arbitrary: records)
    (simp_all add: Let_def comments_loop_map post_records_def surviving_comments_def)

lemmas post_eval = replace_Z_def parse_timestamp_def opt_int_def post_elements_def
  post_body_of_def likes_of_def post_timestamp_def base_record_def comment_record_def
  parse_posts_page_def

text \<open>
  C4. In \<^verbatim>\<open>parse_posts_page\<close> a comment element of a post gives a comment record if and
  only if its text is not empty and differs from the body of the post: the loop over the
  comments appends, in order, the records of exactly those elements. A page with one post
  (body "Hello") and two comments, "Hello" and "Nice", gives two records: the record of the
  post, with a null \<^verbatim>\<open>comment_text\<close>, and the record of the comment "Nice", with the
  \<^verbatim>\<open>post_content\<close> of the post.
\<close>

theorem comments_loop_records:
  "comments_loop lib comment_elems post_body timestamp source_url category records =
     records @ map (\<lambda>c. comment_record lib c (get_text [0x20] True c) post_body timestamp
                          source_url category)
       (filter (\<lambda>c. get_text [0x20] True c \<noteq> [] \<and> get_text [0x20] True c \<noteq> post_body)
          comment_elems)
   \<and> parse_posts_page lib
       (Tag (U ''[document]'') None []
          [Tag (U ''div'') (Some [U ''post'']) []
             [Tag (U ''p'') None [] [Str Text (U ''Hello'')],
              Tag (U ''div'') (Some [U ''comment'']) [] [Str Text (U ''Hello'')],
              Tag (U ''div'') (Some [U ''comment'']) [] [Str Text (U ''Nice'')]]])
       (U ''u'') None
     = [[(U ''stock_name'', VNone),
         (U ''ticker'', VNone),
         (U ''investor_name'', VNone),
         (U ''investor_stats'', VNone),
         (U ''post_content'', VStr (U ''Hello'')),
         (U ''comment_text'', VNone),
         (U ''likes_count'', VNone),
         (U ''post_date'', VNone),
         (U ''category'', VNone),
         (U ''source_url'', VStr (U ''u''))],
        [(U ''stock_name'', VNone),
         (U ''ticker'', VNone),
         (U ''investor_name'', VNone),
         (U ''investor_stats'', VNone),
         (U ''post_content'', VStr (U ''Hello'')),
         (U ''comment_text'', VStr (U ''Nice'')),
         (U ''likes_count'', VNone),
         (U ''post_date'', VNone),
         (U ''category'', VNone),
         (U ''source_url'', VStr (U ''u''))]]"
proof -
  have a: "comments_loop lib comment_elems post_body timestamp source_url category records =
     records @ map (\<lambda>c. comment_record lib c (get_text [0x20] True c) post_body timestamp
                          source_url category)
       (filter (\<lambda>c. get_text [0x20] True c \<noteq> [] \<and> get_text [0x20] True c \<noteq> post_body)
          comment_elems)"
    by (rule comments_loop_map)
  have b: "parse_posts_page lib
       (Tag (U ''[document]'') None []
          [Tag (U ''div'') (Some [U ''post'']) []
             [Tag (U ''p'') None [] [Str Text (U ''Hello'')],
              Tag (U ''div'') (Some [U ''comment'']) [] [Str Text (U ''Hello'')],
              Tag (U ''div'') (Some [U ''comment'']) [] [Str Text (U ''Nice'')]]])
       (U ''u'') None
     = [[(U ''stock_name'', VNone),
         (U ''ticker'', VNone),
         (U ''investor_name'', VNone),
         (U ''investor_stats'', VNone),
         (U ''post_content'', VStr (U ''Hello'')),
         (U ''comment_text'', VNone),
         (U ''likes_count'', VNone),
         (U ''post_date'', VNone),
         (U ''category'', VNone),
         (U ''source_url'', VStr (U ''u''))],
        [(U ''stock_name'', VNone),
         (U ''ticker'', VNone),
         (U ''investor_name'', VNone),
         (U ''investor_stats'', VNone),
         (U ''post_content'', VStr (U ''Hello'')),
         (U ''comment_text'', VStr (U ''Nice'')),
         (U ''likes_count'', VNone),
         (U ''post_date'', VNone),
         (U ''category'', VNone),
         (U ''source_url'', VStr (U ''u''))]]"
    by (simp add: post_eval dom_eval char_eval opt_str_def Let_def enumerate_eq_zip)
  from a b show ?thesis by (rule conjI)
qed

text \<open>
  C10. The list returned by \<^verbatim>\<open>parse_posts_page\<close> is made of the records of the posts
  with text, one post after the other in first-seen order of the elements selected by the
  three selectors (each identity once); the records of a post are its own record followed
  by the records of its surviving comments in document order.
\<close>

theorem parse_posts_page_order:
  "parse_posts_page lib soup source_url category =
     concat (map (\<lambda>post. post_records lib post source_url category)
       (filter (\<lambda>post. get_text [0x20] True post \<noteq> [])
          (map snd (first_seen (post_elements soup)))))
   \<and> post_records lib post source_url category =
       base_record lib post source_url category
       # map (\<lambda>c. comment_record lib c (get_text [0x20] True c) (post_body_of post)
                   (post_timestamp lib post) source_url category)
           (filter (\<lambda>c. get_text [0x20] True c \<noteq> []
                      \<and> get_text [0x20] True c \<noteq> post_body_of post)
              (find_all (class_contains (U ''comment'')) post))"
  by (simp add: parse_posts_page_def posts_loop_concat uniq_loop_first_seen post_records_def
      surviving_comments_def)

lemma field_keys:
  "dict_keys [(U ''stock_name'', a), (U ''ticker'', b), (U ''investor_name'', c),
      (U ''investor_stats'', d), (U ''post_content'', e), (U ''comment_text'', f),
      (U ''likes_count'', g), (U ''post_date'', h), (U ''category'', i), (U ''source_url'', j)]
   = FIELD_NAMES"
  by (simp add: dict_keys_def FIELD_NAMES_def)

lemma field_names_ne:
  "U ''stock_name'' \<noteq> U ''ticker''" "U ''stock_name'' \<noteq> U ''investor_name''"
  "U ''stock_name'' \<noteq> U ''investor_stats''" "U ''stock_name'' \<noteq> U ''post_content''"
  "U ''stock_name'' \<noteq> U ''comment_text''" "U ''stock_name'' \<noteq> U ''likes_count''"
  "U ''stock_name'' \<noteq> U ''post_date''" "U ''stock_name'' \<noteq> U ''category''"
  "U ''stock_name'' \<noteq> U ''source_url''"
  "U ''ticker'' \<noteq> U ''investor_name''" "U ''ticker'' \<noteq> U ''investor_stats''"
  "U ''ticker'' \<noteq> U ''post_content''" "U ''ticker'' \<noteq> U ''comment_text''"
  "U ''ticker'' \<noteq> U ''likes_count''" "U ''ticker'' \<noteq> U ''post_date''"
  "U ''ticker'' \<noteq> U ''category''" "U ''ticker'' \<noteq> U ''source_url''"
  "U ''investor_name'' \<noteq> U ''investor_stats''" "U ''investor_name'' \<noteq> U ''post_content''"
  "U ''investor_name'' \<noteq> U ''comment_text''" "U ''investor_name'' \<noteq> U ''likes_count''"
  "U ''investor_name'' \<noteq> U ''post_date''" "U ''investor_name'' \<noteq> U ''category''"
  "U ''investor_name'' \<noteq> U ''source_url''"
  "U ''investor_stats'' \<noteq> U ''post_content''" "U ''investor_stats'' \<noteq> U ''comment_text''"
  "U ''investor_stats'' \<noteq> U ''likes_count''" "U ''investor_stats'' \<noteq> U ''post_date''"
  "U ''investor_stats'' \<noteq> U ''category''" "U ''investor_stats'' \<noteq> U ''source_url''"
  "U ''post_content'' \<noteq> U ''comment_text''" "U ''post_content'' \<noteq> U ''likes_count''"
  "U ''post_content'' \<noteq> U ''post_date''" "U ''post_content'' \<noteq> U ''category''"
  "U ''post_content'' \<noteq> U ''source_url''"
  "U ''comment_text'' \<noteq> U ''likes_count''" "U ''comment_text'' \<noteq> U ''post_date''"
  "U ''comment_text'' \<noteq> U ''category''" "U ''comment_text'' \<noteq> U ''source_url''"
  "U ''likes_count'' \<noteq> U ''post_date''" "U ''likes_count'' \<noteq> U ''category''"
  "U ''likes_count'' \<noteq> U ''source_url''"
  "U ''post_date'' \<noteq> U ''category''" "U ''post_date'' \<noteq> U ''source_url''"
  "U ''category'' \<noteq> U ''source_url''"
  by (simp_all add: U_def)

lemma stock_record_fields:
  assumes "r \<in> set (parse_stock_page soup source_url category)"
  shows "dict_keys r = FIELD_NAMES \<and> dict_get r (U ''source_url'') = VStr source_url
    \<and> (\<forall>k \<in> set [U ''investor_name'', U ''investor_stats'', U ''post_content'',
          U ''comment_text'', U ''likes_count'', U ''post_date'']. dict_get r k = VNone)"
proof -
  from assms obtain a b i where r: "r = [(U ''stock_name'', a), (U ''ticker'', b),
      (U ''investor_name'', VNone), (U ''investor_stats'', VNone), (U ''post_content'', VNone),
      (U ''comment_text'', VNone), (U ''likes_count'', VNone), (U ''post_date'', VNone),
      (U ''category'', i), (U ''source_url'', VStr source_url)]"
    unfolding parse_stock_page_cases by (auto split: if_splits)
  show ?thesis unfolding r field_keys record_fields
    using field_names_ne by (simp add: field_names_ne[symmetric])
qed

lemma investor_record_fields:
  assumes "r \<in> set (parse_investor_page soup source_url category)"
  shows "dict_keys r = FIELD_NAMES \<and> dict_get r (U ''source_url'') = VStr source_url
    \<and> (\<forall>k \<in> set [U ''stock_name'', U ''ticker'', U ''post_content'',
          U ''comment_text'', U ''likes_count'', U ''post_date'']. dict_get r k = VNone)"
proof -
  from assms obtain c d i where r: "r = [(U ''stock_name'', VNone), (U ''ticker'', VNone),
      (U ''investor_name'', c), (U ''investor_stats'', d), (U ''post_content'', VNone),
      (U ''comment_text'', VNone), (U ''likes_count'', VNone), (U ''post_date'', VNone),
      (U ''category'', i), (U ''source_url'', VStr source_url)]"
    unfolding parse_investor_page_def investor_loop_map
    by (auto simp: investor_record_def Let_def)
  show ?thesis unfolding r field_keys record_fields
    using field_names_ne by (simp add: field_names_ne[symmetric])
qed

lemma posts_record_fields:
  assumes "r \<in> set (parse_posts_page lib soup source_url category)"
  shows "dict_keys r = FIELD_NAMES \<and> dict_get r (U ''source_url'') = VStr source_url
    \<and> (\<forall>k \<in> set [U ''stock_name'', U ''ticker'', U ''investor_name'',
          U ''investor_stats'']. dict_get r k = VNone)"
proof -
  from assms obtain e f g h i where r: "r = [(U ''stock_name'', VNone), (U ''ticker'', VNone),
      (U ''investor_name'', VNone), (U ''investor_stats'', VNone), (U ''post_content'', e),
      (U ''comment_text'', f), (U ''likes_count'', g), (U ''post_date'', h),
      (U ''category'', i), (U ''source_url'', VStr source_url)]"
    unfolding parse_posts_page_def posts_loop_concat post_records_def
    by (auto simp: base_record_def comment_record_def Let_def)
  show ?thesis unfolding r field_keys record_fields
    using field_names_ne by (simp add: field_names_ne[symmetric])
qed

text \<open>
  C1. Every record returned by \<^verbatim>\<open>parse_stock_page\<close>, \<^verbatim>\<open>parse_investor_page\<close> and
  \<^verbatim>\<open>parse_posts_page\<close> has exactly the 10 keys of \<^verbatim>\<open>FIELD_NAMES\<close>, in that order; the
  fields that the extractor does not populate are null, and \<^verbatim>\<open>source_url\<close> is the source
  URL, a string.
\<close>

theorem extractor_records_fields:
  "(\<forall>r \<in> set (parse_stock_page soup source_url category).
      dict_keys r = FIELD_NAMES \<and> dict_get r (U ''source_url'') = VStr source_url
      \<and> (\<forall>k \<in> set [U ''investor_name'', U ''investor_stats'', U ''post_content'',
            U ''comment_text'', U ''likes_count'', U ''post_date'']. dict_get r k = VNone))
   \<and> (\<forall>r \<in> set (parse_investor_page soup source_url category).
      dict_keys r = FIELD_NAMES \<and> dict_get r (U ''source_url'') = VStr source_url
      \<and> (\<forall>k \<in> set [U ''stock_name'', U ''ticker'', U ''post_content'',
            U ''comment_text'', U ''likes_count'', U ''post_date'']. dict_get r k = VNone))
   \<and> (\<forall>r \<in> set (parse_posts_page lib soup source_url category).
      dict_keys r = FIELD_NAMES \<and> dict_get r (U ''source_url'') = VStr source_url
      \<and> (\<forall>k \<in> set [U ''stock_name'', U ''ticker'', U ''investor_name'',
            U ''investor_stats'']. dict_get r k = VNone))
   \<and> distinct FIELD_NAMES \<and> length FIELD_NAMES = 10"
proof -
  have "distinct FIELD_NAMES" "length FIELD_NAMES = 10"
    by (simp_all add: FIELD_NAMES_def U_def)
  with stock_record_fields[of _ soup source_url category]
    investor_record_fields[of _ soup source_url category]
    posts_record_fields[of _ lib soup source_url category]
  show ?thesis by blast
qed

theorem extractor_records_fields_witness:
  "dict_keys (hd (parse_stock_page
       (Tag (U ''[document]'') None []
          [Tag (U ''meta'') None
             [(U ''property'', U ''og:title''), (U ''content'', U ''TSLA (Tesla, Inc.)'')] []])
       (U ''u'') None)) = FIELD_NAMES
   \<and> dict_keys (hd (parse_investor_page
       (Tag (U ''[document]'') None []
          [Tag (U ''div'') (Some [U ''user-card'']) [] [Str Text (U '' Ann  B '')],
           Tag (U ''div'') (Some [U ''investor'']) [] [Str Text (U ''  '')]])
       (U ''u'') None)) = FIELD_NAMES
   \<and> dict_get (hd (parse_investor_page
       (Tag (U ''[document]'') None []
          [Tag (U ''div'') (Some [U ''user-card'']) [] [Str Text (U '' Ann  B '')],
           Tag (U ''div'') (Some [U ''investor'']) [] [Str Text (U ''  '')]])
       (U ''u'') None)) (U ''source_url'') = VStr (U ''u'')"
proof -
  let ?s = "Tag (U ''[document]'') None []
          [Tag (U ''meta'') None
             [(U ''property'', U ''og:title''), (U ''content'', U ''TSLA (Tesla, Inc.)'')] []]"
  let ?i = "Tag (U ''[document]'') None []
          [Tag (U ''div'') (Some [U ''user-card'']) [] [Str Text (U '' Ann  B '')],
           Tag (U ''div'') (Some [U ''investor'']) [] [Str Text (U ''  '')]]"
  have "hd (parse_stock_page ?s (U ''u'') None) \<in> set (parse_stock_page ?s (U ''u'') None)"
    unfolding ex_tsla by simp
  with extractor_records_fields[where soup="?s" and source_url="U ''u''" and category=None]
  have a: "dict_keys (hd (parse_stock_page ?s (U ''u'') None)) = FIELD_NAMES" by blast
  have "hd (parse_investor_page ?i (U ''u'') None) \<in> set (parse_investor_page ?i (U ''u'') None)"
    unfolding ex_investor by simp
  with extractor_records_fields[where soup="?i" and source_url="U ''u''" and category=None]
  have b: "dict_keys (hd (parse_investor_page ?i (U ''u'') None)) = FIELD_NAMES
    \<and> dict_get (hd (parse_investor_page ?i (U ''u'') None)) (U ''source_url'') = VStr (U ''u'')"
    by blast
  from a b show ?thesis by blast
qed

lemma formats_loop_first:
  "strptime lib t fmt = Some dt \<Longrightarrow> fmt \<noteq> U ''%Y-%m-%d'' \<Longrightarrow>
     formats_loop lib t (fmt # fmts) = Some (isoformat lib dt @ U ''Z'')"
  by simp

text \<open>
  C2 (the code departs from it). When the element has no \<^verbatim>\<open>datetime\<close> attribute and
  \<^verbatim>\<open>strptime\<close> parses its text with the first format, the one with a timezone offset,
  \<^verbatim>\<open>_parse_timestamp\<close> returns the ISO form of the parsed timestamp, which ends with the
  offset, followed by \<^verbatim>\<open>Z\<close>: the suffix is added to the results that carry an offset too,
  not only to the date-only and the offset-less ones.
\<close>

theorem parse_timestamp_offset_suffix:
  assumes "\<not> has_attr (U ''datetime'') element"
    and "get_text [] True element \<noteq> []"
    and "strptime lib (get_text [] True element) (U ''%Y-%m-%dT%H:%M:%S%z'') = Some dt"
  shows "parse_timestamp lib element = Some (isoformat lib dt @ U ''Z'')"
proof -
  have ne: "U ''%Y-%m-%dT%H:%M:%S%z'' \<noteq> U ''%Y-%m-%d''" by (simp add: U_def)
  from formats_loop_first[OF assms(3) ne]
  have "formats_loop lib (get_text [] True element)
      [U ''%Y-%m-%dT%H:%M:%S%z'', U ''%Y-%m-%dT%H:%M:%S'', U ''%Y-%m-%d'']
      = Some (isoformat lib dt @ U ''Z'')" .
  then show ?thesis
    unfolding parse_timestamp_def Let_def using assms(1,2) by simp
qed

theorem parse_timestamp_offset_suffix_witness:
  "parse_timestamp
     \<lparr>fromisoformat_ok = (\<lambda>s. False),
      strptime = (\<lambda>t f. if f = U ''%Y-%m-%dT%H:%M:%S%z'' then Some t else None),
      date_midnight = (\<lambda>d. d),
      isoformat = (\<lambda>d. d)\<rparr>
     (Tag (U ''time'') None [] [Str Text (U ''2025-03-22T14:30:00+01:00'')])
   = Some (U ''2025-03-22T14:30:00+01:00Z'')"
proof -
  let ?lib = "\<lparr>fromisoformat_ok = (\<lambda>s. False),
      strptime = (\<lambda>t f. if f = U ''%Y-%m-%dT%H:%M:%S%z'' then Some t else None),
      date_midnight = (\<lambda>d. d),
      isoformat = (\<lambda>d. d)\<rparr> :: ustr datetime_lib"
  let ?e = "Tag (U ''time'') None [] [Str Text (U ''2025-03-22T14:30:00+01:00'')]"
  have g: "get_text [] True ?e = U ''2025-03-22T14:30:00+01:00''"
    by (simp add: dom_eval char_eval)
  have 1: "\<not> has_attr (U ''datetime'') ?e" by (simp add: has_attr_def)
  have 2: "get_text [] True ?e \<noteq> []" unfolding g by (simp add: U_def)
  have 3: "strptime ?lib (get_text [] True ?e) (U ''%Y-%m-%dT%H:%M:%S%z'')
      = Some (U ''2025-03-22T14:30:00+01:00'')" unfolding g by simp
  have "U ''2025-03-22T14:30:00+01:00'' @ U ''Z'' = U ''2025-03-22T14:30:00+01:00Z''"
    by (simp add: U_def)
  with parse_timestamp_offset_suffix[OF 1 2 3] show ?thesis by simp
qed


end
